theory Spec2Isabelle
  imports Main
begin

section \<open>The buffer manager of \<^verbatim>\<open>src/buffer.cpp\<close>\<close>

text \<open>
  The buffer manager keeps a fixed pool of frames. Each frame has a descriptor
  (\<^verbatim>\<open>bufDescTable\<close>) and a slot of page contents (\<^verbatim>\<open>bufPool\<close>); a hash table maps
  (file, page number) to the frame that holds the page; the clock hand selects victims.
  Member functions mutate the object and may throw; here every member function takes the
  object's state and returns the outcome (an exception as \<open>Inl\<close>, a result as \<open>Inr\<close>)
  together with the state it leaves behind, because what was mutated before a
  \<^verbatim>\<open>throw\<close> stays mutated.
\<close>

subsection \<open>Types\<close>

text \<open>
  \<^verbatim>\<open>File*\<close> is a pointer, compared by address; \<open>NULL\<close> is the null pointer.
  \<^verbatim>\<open>PageId\<close> and \<^verbatim>\<open>FrameId\<close> are unsigned integers. Frame ids stay below \<^verbatim>\<open>numBufs\<close>
  and no claim depends on the width of a page number, so both are natural numbers.
\<close>

type_synonym File = nat
type_synonym PageId = nat
type_synonym FrameId = nat

definition NULL :: File where
  "NULL = 0"

text \<open>
  Modelled from the spec: the class \<^verbatim>\<open>Page\<close> is declared outside \<^verbatim>\<open>buffer.cpp\<close>. The
  spec (External interfaces) describes it as opaque contents, copied by value into pool
  slots, with \<^verbatim>\<open>page_number()\<close> giving its embedded page identifier.
\<close>

record Page =
  page_number :: PageId
  page_data :: string

text \<open>
  Modelled from the spec: the class \<^verbatim>\<open>BufDesc\<close> is declared in \<^verbatim>\<open>buffer.h\<close>, which is
  not among the sources. Its fields are those listed in the spec's data model; \<open>pinCnt\<close>
  is "an unsigned count of active pins", taken here as a natural number.
\<close>

record BufDesc =
  "file" :: File
  pageNo :: PageId
  frameNo :: FrameId
  pinCnt :: nat
  dirty :: bool
  valid :: bool
  refbit :: bool

text \<open>
  Modelled from the spec: \<^verbatim>\<open>BufDesc::Clear\<close> resets "all fields to an empty state
  (\<open>valid=false\<close>)", the file being none; \<open>frameNo\<close> is "immutable after construction".
  The page number of an empty frame is "meaningless"; it is reset to 0 here.
\<close>

definition Clear :: "BufDesc \<Rightarrow> BufDesc" where
  "Clear d = d\<lparr>file := NULL, pageNo := 0, pinCnt := 0,
               dirty := False, valid := False, refbit := False\<rparr>"

text \<open>
  Modelled from the spec: \<^verbatim>\<open>BufDesc::Set(file, pageNo)\<close> "transitions an allocated frame
  to \<open>valid=true, pinCnt=1, refbit=true, dirty=false\<close>" for the given file and page.
\<close>

definition Set_desc :: "File \<Rightarrow> PageId \<Rightarrow> BufDesc \<Rightarrow> BufDesc" where
  "Set_desc fp pn d = d\<lparr>file := fp, pageNo := pn, pinCnt := 1,
                        dirty := False, valid := True, refbit := True\<rparr>"

text \<open>
  The exceptions that \<^verbatim>\<open>buffer.cpp\<close> throws or lets through. The diagnostic payload of
  an exception object (file name, page number, frame number) is left out.
  \<open>HashNotFound\<close> is caught inside every member function except \<^verbatim>\<open>flushFile\<close>.
\<close>

datatype error =
    BufferExceeded
  | PageNotPinned
  | PagePinned
  | BadBuffer
  | HashNotFound

text \<open>
  The File collaborator is outside the buffer manager. Each call the buffer manager
  makes on a \<^verbatim>\<open>File\<close> is appended to a log kept in the state, so that theorems can say
  which calls were made, with which arguments and in which order. The page that
  \<^verbatim>\<open>file->readPage(pageNo)\<close> or \<^verbatim>\<open>file->allocatePage()\<close> hands back is an argument of
  the operation that makes the call; calls on a \<^verbatim>\<open>File\<close> are taken to return.
\<close>

datatype FileCall =
    File_readPage File PageId
  | File_writePage File Page
  | File_allocatePage File
  | File_deletePage File PageId

type_synonym BufHashTbl = "File \<times> PageId \<rightharpoonup> FrameId"

record BufMgr =
  numBufs :: nat
  bufDescTable :: "BufDesc list"
  bufPool :: "Page list"
  hashTable :: BufHashTbl
  clockHand :: FrameId
  fileCalls :: "FileCall list"

subsection \<open>The hash table\<close>

text \<open>
  The class \<^verbatim>\<open>BufHashTbl\<close> is not among the sources. The spec describes it as a
  mapping from (file, pageNo) to frame id with lookup, insert and remove, where a miss is
  a normal outcome. Here it is a partial map, and each of its three member functions is
  modelled from the spec.
\<close>

text \<open>
  Modelled from the spec: \<^verbatim>\<open>BufHashTbl::lookup\<close>, missing from the sources. It gives the
  frame of a key; the \<^verbatim>\<open>catch (HashNotFoundException &)\<close> blocks around its calls in
  \<^verbatim>\<open>buffer.cpp\<close> show that it throws when the key is absent.
\<close>

definition ht_lookup :: "BufHashTbl \<Rightarrow> File \<Rightarrow> PageId \<Rightarrow> error + FrameId" where
  "ht_lookup t fp pn = (case t (fp, pn) of None \<Rightarrow> Inl HashNotFound | Some fr \<Rightarrow> Inr fr)"

text \<open>
  Modelled from the spec: \<^verbatim>\<open>BufHashTbl::insert\<close>, missing from the sources. It
  registers the mapping from (file, pageNo) to the frame; the spec gives it no failure.
\<close>

definition ht_insert :: "BufHashTbl \<Rightarrow> File \<Rightarrow> PageId \<Rightarrow> FrameId \<Rightarrow> BufHashTbl" where
  "ht_insert t fp pn fr = t((fp, pn) \<mapsto> fr)"

text \<open>
  Modelled from the spec: \<^verbatim>\<open>BufHashTbl::remove\<close>, missing from the sources. It removes
  the entry of a key; "absence is tolerated" by \<^verbatim>\<open>allocBuf\<close> through a
  \<^verbatim>\<open>catch (HashNotFoundException &)\<close>, so it throws when the key is absent.
\<close>

definition ht_remove :: "BufHashTbl \<Rightarrow> File \<Rightarrow> PageId \<Rightarrow> error + BufHashTbl" where
  "ht_remove t fp pn =
     (case t (fp, pn) of None \<Rightarrow> Inl HashNotFound | Some fr \<Rightarrow> Inr (t((fp, pn) := None)))"

subsection \<open>Construction\<close>

text \<open>
  Modelled from the spec: the default constructor of \<^verbatim>\<open>BufDesc\<close>, missing from the
  sources. "All fields [are] reset to an empty state (\<open>valid=false\<close>) at construction";
  the constructor of \<^verbatim>\<open>BufMgr\<close> then stores the frame number.
\<close>

definition empty_desc :: "FrameId \<Rightarrow> BufDesc" where
  "empty_desc i = \<lparr>file = NULL, pageNo = 0, frameNo = i, pinCnt = 0,
                   dirty = False, valid = False, refbit = False\<rparr>"

text \<open>
  Modelled from the spec: the default constructor of \<^verbatim>\<open>Page\<close>, missing from the sources.
  The contents of a pool slot that has never been filled play no role in any claim.
\<close>

definition empty_page :: Page where
  "empty_page = \<lparr>page_number = 0, page_data = []\<rparr>"

text \<open>
  \<^verbatim>\<open>BufMgr::BufMgr(bufs)\<close>: every descriptor is default-constructed and given its frame
  number, the pool holds default pages, the hash table is empty and the clock hand starts
  at \<open>bufs - 1\<close>. (For \<open>bufs = 0\<close> the unsigned subtraction of the source wraps and the
  first \<^verbatim>\<open>advanceClock\<close> divides by zero; everything proved below is about pools of at
  least one frame, see \<open>wellFormed\<close>.)
\<close>

definition new_BufMgr :: "nat \<Rightarrow> BufMgr" where
  "new_BufMgr bufs =
     \<lparr>numBufs = bufs,
      bufDescTable = map empty_desc [0..<bufs],
      bufPool = replicate bufs empty_page,
      hashTable = Map.empty,
      clockHand = bufs - 1,
      fileCalls = []\<rparr>"

subsection \<open>The clock allocator\<close>

definition advanceClock :: "BufMgr \<Rightarrow> BufMgr" where
  "advanceClock s =
     (let c = clockHand s + 1
      in s\<lparr>clockHand := (if c \<ge> numBufs s then c mod numBufs s else c)\<rparr>)"

text \<open>
  The two statements
  \<^verbatim>\<open>bufDescTable[i].file->writePage(bufPool[i]); bufDescTable[i].dirty = false;\<close>
  occur in \<^verbatim>\<open>allocBuf\<close> and again in \<^verbatim>\<open>flushFile\<close>.
\<close>

definition writeBack :: "FrameId \<Rightarrow> BufMgr \<Rightarrow> BufMgr" where
  "writeBack i s =
     s\<lparr>fileCalls := fileCalls s @ [File_writePage (file (bufDescTable s ! i)) (bufPool s ! i)],
       bufDescTable := (bufDescTable s)[i := (bufDescTable s ! i)\<lparr>dirty := False\<rparr>]\<rparr>"

text \<open>
  The \<^verbatim>\<open>try { hashTable->remove(...) } catch (HashNotFoundException &) { }\<close> of
  \<^verbatim>\<open>allocBuf\<close>: an absent key is ignored.
\<close>

definition removeIfPresent :: "FrameId \<Rightarrow> BufMgr \<Rightarrow> BufMgr" where
  "removeIfPresent i s =
     (case ht_remove (hashTable s) (file (bufDescTable s ! i)) (pageNo (bufDescTable s ! i)) of
        Inl e \<Rightarrow> s
      | Inr t \<Rightarrow> s\<lparr>hashTable := t\<rparr>)"

text \<open>
  The \<^verbatim>\<open>while (true)\<close> loop of \<^verbatim>\<open>allocBuf\<close>, with the local counter \<open>pinned\<close> as its
  second argument. The loop has no bound of its own, so the function is partial:
  \<open>None\<close> stands for a loop that never leaves.
\<close>

partial_function (option) allocBuf_loop ::
  "BufMgr \<Rightarrow> nat \<Rightarrow> ((error + FrameId) \<times> BufMgr) option" where
  "allocBuf_loop s pinned =
     (let s1 = advanceClock s; h = clockHand s1; d = bufDescTable s1 ! h
      in if \<not> valid d then Some (Inr h, s1)
         else if refbit d then
           allocBuf_loop (s1\<lparr>bufDescTable := (bufDescTable s1)[h := d\<lparr>refbit := False\<rparr>]\<rparr>) pinned
         else if pinCnt d \<noteq> 0 then
           (if pinned + 1 = numBufs s1 then Some (Inl BufferExceeded, s1)
            else allocBuf_loop s1 (pinned + 1))
         else
           (let s2 = (if dirty d then writeBack h s1 else s1);
                s3 = (if valid (bufDescTable s2 ! h) then removeIfPresent h s2 else s2)
            in Some (Inr h, s3)))"

definition allocBuf :: "BufMgr \<Rightarrow> ((error + FrameId) \<times> BufMgr) option" where
  "allocBuf s = allocBuf_loop s 0"

subsection \<open>The public operations\<close>

text \<open>
  \<^verbatim>\<open>readPage(file, pageNo, page)\<close>. The handle \<^verbatim>\<open>page = bufPool + frame\<close> is returned as
  the frame id. \<open>rd\<close> is the page that \<^verbatim>\<open>file->readPage(pageNo)\<close> returns on a miss.
\<close>

definition readPage ::
  "File \<Rightarrow> PageId \<Rightarrow> Page \<Rightarrow> BufMgr \<Rightarrow> ((error + FrameId) \<times> BufMgr) option" where
  "readPage fp pn rd s =
     (case ht_lookup (hashTable s) fp pn of
        Inr frame \<Rightarrow>
          (let d = bufDescTable s ! frame
           in Some (Inr frame,
                s\<lparr>bufDescTable :=
                    (bufDescTable s)[frame := d\<lparr>refbit := True, pinCnt := pinCnt d + 1\<rparr>]\<rparr>))
      | Inl e \<Rightarrow>
          (case allocBuf s of
             None \<Rightarrow> None
           | Some (Inl e', s1) \<Rightarrow> Some (Inl e', s1)
           | Some (Inr frame, s1) \<Rightarrow>
               Some (Inr frame,
                 s1\<lparr>fileCalls := fileCalls s1 @ [File_readPage fp pn],
                    bufPool := (bufPool s1)[frame := rd],
                    hashTable := ht_insert (hashTable s1) fp pn frame,
                    bufDescTable :=
                      (bufDescTable s1)[frame := Set_desc fp pn (bufDescTable s1 ! frame)]\<rparr>)))"

text \<open>
  \<^verbatim>\<open>unPinPage(file, pageNo, dirty)\<close>. The warning printed for a page that is not in the
  pool is diagnostic output and is not part of the state.
\<close>

definition unPinPage :: "File \<Rightarrow> PageId \<Rightarrow> bool \<Rightarrow> BufMgr \<Rightarrow> (error + unit) \<times> BufMgr" where
  "unPinPage fp pn isDirty s =
     (case ht_lookup (hashTable s) fp pn of
        Inl e \<Rightarrow> (Inr (), s)
      | Inr frame \<Rightarrow>
          (let d = bufDescTable s ! frame
           in if pinCnt d > 0 then
                (let d1 = d\<lparr>pinCnt := pinCnt d - 1\<rparr>;
                     d2 = (if isDirty then d1\<lparr>dirty := True\<rparr> else d1)
                 in (Inr (), s\<lparr>bufDescTable := (bufDescTable s)[frame := d2]\<rparr>))
              else (Inl PageNotPinned, s)))"

text \<open>
  \<^verbatim>\<open>flushFile(file)\<close>: the \<^verbatim>\<open>for\<close> loop over the frame ids \<open>fi\<close>, from \<open>fi\<close> on.
  \<^verbatim>\<open>hashTable->remove\<close> is not inside a \<^verbatim>\<open>try\<close> here, so its exception leaves the loop.
\<close>

function flushFile_loop :: "File \<Rightarrow> FrameId \<Rightarrow> BufMgr \<Rightarrow> (error + unit) \<times> BufMgr" where
  "flushFile_loop fp fi s =
     (if fi < numBufs s then
        (if file (bufDescTable s ! fi) = fp then
           (if \<not> valid (bufDescTable s ! fi) then (Inl BadBuffer, s)
            else if pinCnt (bufDescTable s ! fi) > 0 then (Inl PagePinned, s)
            else
              (let s1 = (if dirty (bufDescTable s ! fi) then writeBack fi s else s)
               in case ht_remove (hashTable s1) fp (pageNo (bufDescTable s1 ! fi)) of
                    Inl e \<Rightarrow> (Inl e, s1)
                  | Inr t \<Rightarrow>
                      flushFile_loop fp (fi + 1)
                        (s1\<lparr>hashTable := t,
                            bufDescTable :=
                              (bufDescTable s1)[fi := Clear (bufDescTable s1 ! fi)]\<rparr>)))
         else flushFile_loop fp (fi + 1) s)
      else (Inr (), s))"
  by pat_completeness auto
termination
  by (relation "measure (\<lambda>(fp, fi, s). numBufs s - fi)")
     (auto simp: writeBack_def)

definition flushFile :: "File \<Rightarrow> BufMgr \<Rightarrow> (error + unit) \<times> BufMgr" where
  "flushFile fp s = flushFile_loop fp 0 s"

text \<open>
  \<^verbatim>\<open>allocPage(file, pageNo, page)\<close>. \<open>p\<close> is the page that \<^verbatim>\<open>file->allocatePage()\<close>
  returns; the call is made before \<^verbatim>\<open>allocBuf\<close>. The results are the new page number and
  the frame id.
\<close>

definition allocPage ::
  "File \<Rightarrow> Page \<Rightarrow> BufMgr \<Rightarrow> ((error + PageId \<times> FrameId) \<times> BufMgr) option" where
  "allocPage fp p s =
     (let s0 = s\<lparr>fileCalls := fileCalls s @ [File_allocatePage fp]\<rparr>
      in case allocBuf s0 of
           None \<Rightarrow> None
         | Some (Inl e, s1) \<Rightarrow> Some (Inl e, s1)
         | Some (Inr frame, s1) \<Rightarrow>
             Some (Inr (page_number p, frame),
               s1\<lparr>bufPool := (bufPool s1)[frame := p],
                  hashTable := ht_insert (hashTable s1) fp (page_number p) frame,
                  bufDescTable :=
                    (bufDescTable s1)[frame := Set_desc fp (page_number p) (bufDescTable s1 ! frame)]\<rparr>))"

text \<open>\<^verbatim>\<open>disposePage(file, PageNo)\<close>.\<close>

definition disposePage :: "File \<Rightarrow> PageId \<Rightarrow> BufMgr \<Rightarrow> (error + unit) \<times> BufMgr" where
  "disposePage fp pn s =
     (let s1 =
        (case ht_lookup (hashTable s) fp pn of
           Inl e \<Rightarrow> s
         | Inr frame \<Rightarrow>
             (case ht_remove (hashTable s) fp pn of
                Inl e \<Rightarrow> s
              | Inr t \<Rightarrow>
                  s\<lparr>hashTable := t,
                    bufDescTable := (bufDescTable s)[frame := Clear (bufDescTable s ! frame)]\<rparr>))
      in (Inr (), s1\<lparr>fileCalls := fileCalls s1 @ [File_deletePage fp pn]\<rparr>))"

subsection \<open>Predicates on buffer-manager states\<close>

text \<open>
  What the constructor establishes and no member function changes: a pool of at least one
  frame, arrays of \<open>numBufs\<close> elements, and a clock hand inside the pool.
\<close>

definition wellFormed :: "BufMgr \<Rightarrow> bool" where
  "wellFormed s \<longleftrightarrow>
     0 < numBufs s \<and> length (bufDescTable s) = numBufs s \<and>
     length (bufPool s) = numBufs s \<and> clockHand s < numBufs s"

text \<open>
  The consistency of the hash table with the descriptor table: a valid frame is found
  in the hash table under its own file and page number, and every entry of the hash table
  points to a valid frame of the pool whose file and page number are the entry's key.
\<close>

definition consistent :: "BufMgr \<Rightarrow> bool" where
  "consistent s \<longleftrightarrow>
     (\<forall>i<numBufs s. valid (bufDescTable s ! i) \<longrightarrow>
        hashTable s (file (bufDescTable s ! i), pageNo (bufDescTable s ! i)) = Some i) \<and>
     (\<forall>fp pn i. hashTable s (fp, pn) = Some i \<longrightarrow>
        i < numBufs s \<and> valid (bufDescTable s ! i) \<and>
        file (bufDescTable s ! i) = fp \<and> pageNo (bufDescTable s ! i) = pn)"

text \<open>A frame that is not valid is in the state \<^verbatim>\<open>Clear\<close> leaves it in.\<close>

definition emptyCleared :: "BufMgr \<Rightarrow> bool" where
  "emptyCleared s \<longleftrightarrow>
     (\<forall>d\<in>set (bufDescTable s). \<not> valid d \<longrightarrow> pinCnt d = 0 \<and> file d = NULL)"

text \<open>Every frame of the pool holds a page and is pinned.\<close>

definition allPinned :: "BufMgr \<Rightarrow> bool" where
  "allPinned s \<longleftrightarrow> (\<forall>d\<in>set (bufDescTable s). valid d \<and> 0 < pinCnt d)"

text \<open>
  The states a client can bring a buffer manager into: it constructs one with at least
  one frame and then calls the public member functions, whether they return or throw.
  The File collaborator answers \<^verbatim>\<open>allocatePage\<close> with a new page, that is, one whose
  number is not the number of a page of that file held in the pool. Any number may stand
  for the \<^verbatim>\<open>File*\<close> argument, also \<open>NULL\<close>, where the source would dereference a null
  pointer: this only adds states.
\<close>

inductive reachable :: "BufMgr \<Rightarrow> bool" where
  init: "0 < bufs \<Longrightarrow> reachable (new_BufMgr bufs)"
| read: "reachable s \<Longrightarrow> readPage fp pn rd s = Some (r, s') \<Longrightarrow> reachable s'"
| alloc: "reachable s \<Longrightarrow> hashTable s (fp, page_number p) = None \<Longrightarrow>
          allocPage fp p s = Some (ra, s') \<Longrightarrow> reachable s'"
| unpin: "reachable s \<Longrightarrow> unPinPage fp pn isDirty s = (ru, s') \<Longrightarrow> reachable s'"
| flush: "reachable s \<Longrightarrow> flushFile fp s = (ru, s') \<Longrightarrow> reachable s'"
| dispose: "reachable s \<Longrightarrow> disposePage fp pn s = (ru, s') \<Longrightarrow> reachable s'"

text \<open>
  What \<^verbatim>\<open>allocBuf\<close> leaves in place in a descriptor: everything but \<open>refbit\<close> and
  \<open>dirty\<close>.
\<close>

definition keepsIdentity :: "BufDesc \<Rightarrow> BufDesc \<Rightarrow> bool" where
  "keepsIdentity d d' \<longleftrightarrow>
     file d' = file d \<and> pageNo d' = pageNo d \<and> frameNo d' = frameNo d \<and>
     pinCnt d' = pinCnt d \<and> valid d' = valid d"

text \<open>
  The relation between the state \<open>s\<close> before a run of the loop of \<^verbatim>\<open>allocBuf\<close>, its
  outcome \<open>r\<close> and the state \<open>s'\<close> after it, as far as the hash table and the identity of
  the frames go.
\<close>

definition allocBuf_post :: "BufMgr \<Rightarrow> error + FrameId \<Rightarrow> BufMgr \<Rightarrow> bool" where
  "allocBuf_post s r s' \<longleftrightarrow>
     numBufs s' = numBufs s \<and> length (bufDescTable s') = length (bufDescTable s) \<and>
     bufPool s' = bufPool s \<and> clockHand s' < numBufs s \<and>
     (\<forall>i<numBufs s. keepsIdentity (bufDescTable s ! i) (bufDescTable s' ! i)) \<and>
     (case r of
        Inl e \<Rightarrow> e = BufferExceeded \<and> hashTable s' = hashTable s
      | Inr f \<Rightarrow>
          f < numBufs s \<and>
          (valid (bufDescTable s ! f) \<longrightarrow> pinCnt (bufDescTable s ! f) = 0) \<and>
          hashTable s' =
            (if valid (bufDescTable s ! f)
             then (hashTable s)((file (bufDescTable s ! f), pageNo (bufDescTable s ! f)) := None)
             else hashTable s))"

text \<open>
  The number of frames the clock hand passes, starting from \<open>hand\<close>, before it is on
  frame \<open>i\<close> of a pool of \<open>n\<close> frames.
\<close>

definition stepsTo :: "nat \<Rightarrow> FrameId \<Rightarrow> FrameId \<Rightarrow> nat" where
  "stepsTo n hand i = (if hand < i then i - hand - 1 else i + n - hand - 1)"

text \<open>
  The state \<open>s'\<close> that the loop of \<^verbatim>\<open>flushFile\<close> makes of \<open>s\<close> by flushing the frames
  \<open>lo, \<dots>, hi - 1\<close> that belong to file \<open>fp\<close>: each of them is cleared and its entry
  removed from the hash table, and those that were dirty have been written back, in the
  order of their frame numbers. Everything else is as in \<open>s\<close>.
\<close>

definition flushedKeys :: "File \<Rightarrow> FrameId \<Rightarrow> FrameId \<Rightarrow> BufMgr \<Rightarrow> (File \<times> PageId) set" where
  "flushedKeys fp lo hi s =
     {(fp, pageNo (bufDescTable s ! i)) | i. lo \<le> i \<and> i < hi \<and> file (bufDescTable s ! i) = fp}"

definition flushedBetween :: "File \<Rightarrow> FrameId \<Rightarrow> FrameId \<Rightarrow> BufMgr \<Rightarrow> BufMgr \<Rightarrow> bool" where
  "flushedBetween fp lo hi s s' \<longleftrightarrow>
     numBufs s' = numBufs s \<and> bufPool s' = bufPool s \<and> clockHand s' = clockHand s \<and>
     length (bufDescTable s') = length (bufDescTable s) \<and>
     (\<forall>i<numBufs s. bufDescTable s' ! i =
        (if lo \<le> i \<and> i < hi \<and> file (bufDescTable s ! i) = fp
         then Clear (bufDescTable s ! i) else bufDescTable s ! i)) \<and>
     hashTable s' = hashTable s |` (- flushedKeys fp lo hi s) \<and>
     fileCalls s' =
       fileCalls s @
       map (\<lambda>i. File_writePage fp (bufPool s ! i))
         (filter (\<lambda>i. file (bufDescTable s ! i) = fp \<and> dirty (bufDescTable s ! i)) [lo..<hi])"

subsection \<open>Example states\<close>

text \<open>
  A pool of two frames after \<^verbatim>\<open>readPage\<close> of the pages 10 and 11 of file 1, with the
  pin counts, reference bits and the dirty bit of frame 0 as given.
\<close>

definition pageOf :: "PageId \<Rightarrow> Page" where
  "pageOf n = \<lparr>page_number = n, page_data = []\<rparr>"

definition twoPages :: "nat \<Rightarrow> bool \<Rightarrow> bool \<Rightarrow> nat \<Rightarrow> bool \<Rightarrow> BufMgr" where
  "twoPages pin0 ref0 dirty0 pin1 ref1 =
     \<lparr>numBufs = 2,
      bufDescTable =
        [\<lparr>file = 1, pageNo = 10, frameNo = 0, pinCnt = pin0, dirty = dirty0,
            valid = True, refbit = ref0\<rparr>,
         \<lparr>file = 1, pageNo = 11, frameNo = 1, pinCnt = pin1, dirty = False,
            valid = True, refbit = ref1\<rparr>],
      bufPool = [pageOf 10, pageOf 11],
      hashTable = [(1, 10) \<mapsto> 0, (1, 11) \<mapsto> 1],
      clockHand = 1,
      fileCalls = [File_readPage 1 10, File_readPage 1 11]\<rparr>"

section \<open>Properties\<close>

subsection \<open>One step of the clock allocator\<close>

lemma advanceClock_simps [simp]:
  "numBufs (advanceClock s) = numBufs s"
  "bufDescTable (advanceClock s) = bufDescTable s"
  "bufPool (advanceClock s) = bufPool s"
  "hashTable (advanceClock s) = hashTable s"
  "fileCalls (advanceClock s) = fileCalls s"
  by (simp_all add: advanceClock_def Let_def)

lemma clockHand_advanceClock:
  "clockHand (advanceClock s) =
     (if numBufs s \<le> clockHand s + 1 then (clockHand s + 1) mod numBufs s else clockHand s + 1)"
  by (simp add: advanceClock_def Let_def)

lemma clockHand_advanceClock_less:
  "0 < numBufs s \<Longrightarrow> clockHand (advanceClock s) < numBufs s"
  by (simp add: clockHand_advanceClock)

lemma allocBuf_loop_empty:
  "\<not> valid (bufDescTable s ! clockHand (advanceClock s)) \<Longrightarrow>
   allocBuf_loop s p = Some (Inr (clockHand (advanceClock s)), advanceClock s)"
  by (subst allocBuf_loop.simps) (simp add: Let_def)

lemma allocBuf_loop_refbit:
  "valid (bufDescTable s ! clockHand (advanceClock s)) \<Longrightarrow>
   refbit (bufDescTable s ! clockHand (advanceClock s)) \<Longrightarrow>
   allocBuf_loop s p =
     allocBuf_loop
       ((advanceClock s)\<lparr>bufDescTable :=
          (bufDescTable s)[clockHand (advanceClock s) :=
             (bufDescTable s ! clockHand (advanceClock s))\<lparr>refbit := False\<rparr>]\<rparr>) p"
  by (subst allocBuf_loop.simps) (simp add: Let_def)

lemma allocBuf_loop_pinned_last:
  "valid (bufDescTable s ! clockHand (advanceClock s)) \<Longrightarrow>
   \<not> refbit (bufDescTable s ! clockHand (advanceClock s)) \<Longrightarrow>
   pinCnt (bufDescTable s ! clockHand (advanceClock s)) \<noteq> 0 \<Longrightarrow>
   p + 1 = numBufs s \<Longrightarrow>
   allocBuf_loop s p = Some (Inl BufferExceeded, advanceClock s)"
  by (subst allocBuf_loop.simps) (simp add: Let_def)

lemma allocBuf_loop_pinned_next:
  "valid (bufDescTable s ! clockHand (advanceClock s)) \<Longrightarrow>
   \<not> refbit (bufDescTable s ! clockHand (advanceClock s)) \<Longrightarrow>
   pinCnt (bufDescTable s ! clockHand (advanceClock s)) \<noteq> 0 \<Longrightarrow>
   p + 1 \<noteq> numBufs s \<Longrightarrow>
   allocBuf_loop s p = allocBuf_loop (advanceClock s) (p + 1)"
  by (subst allocBuf_loop.simps) (simp add: Let_def)

lemma valid_writeBack_nth:
  "valid (bufDescTable (writeBack i s) ! j) = valid (bufDescTable s ! j)"
  by (cases "i < length (bufDescTable s)"; cases "i = j") (simp_all add: writeBack_def list_update_beyond)

lemma allocBuf_loop_victim:
  "valid (bufDescTable s ! clockHand (advanceClock s)) \<Longrightarrow>
   \<not> refbit (bufDescTable s ! clockHand (advanceClock s)) \<Longrightarrow>
   pinCnt (bufDescTable s ! clockHand (advanceClock s)) = 0 \<Longrightarrow>
   allocBuf_loop s p =
     Some (Inr (clockHand (advanceClock s)),
       removeIfPresent (clockHand (advanceClock s))
         (if dirty (bufDescTable s ! clockHand (advanceClock s))
          then writeBack (clockHand (advanceClock s)) (advanceClock s) else advanceClock s))"
  by (subst allocBuf_loop.simps) (simp add: Let_def valid_writeBack_nth)


lemma refbit_count_less:
  "i < length t \<Longrightarrow> refbit (t ! i) \<Longrightarrow>
   length (filter refbit (t[i := (t ! i)\<lparr>refbit := False\<rparr>])) < length (filter refbit t)"
proof (induction t arbitrary: i)
  case Nil
  then show ?case by simp
next
  case (Cons d t)
  show ?case
  proof (cases i)
    case 0
    with Cons.prems show ?thesis by (simp add: less_Suc_eq_le)
  next
    case (Suc j)
    with Cons.prems Cons.IH [of j] show ?thesis by simp
  qed
qed

lemma allocBuf_post_step:
  assumes "allocBuf_post s1 r s'"
    and "numBufs s1 = numBufs s" and "length (bufDescTable s1) = length (bufDescTable s)"
    and "bufPool s1 = bufPool s" and "hashTable s1 = hashTable s"
    and "\<forall>i<numBufs s. keepsIdentity (bufDescTable s ! i) (bufDescTable s1 ! i)"
  shows "allocBuf_post s r s'"
  using assms
  by (cases r) (auto simp: allocBuf_post_def keepsIdentity_def)

lemma keepsIdentity_refl [simp]: "keepsIdentity d d"
  by (simp add: keepsIdentity_def)

lemma allocBuf_loop_total:
  assumes "wellFormed s" and "p < numBufs s"
  shows "\<exists>r s'. allocBuf_loop s p = Some (r, s') \<and> allocBuf_post s r s'"
  using assms
proof (induction "length (filter refbit (bufDescTable s)) + (numBufs s - p)"
    arbitrary: s p rule: less_induct)
  case less
  let ?a = "advanceClock s"
  let ?h = "clockHand ?a"
  let ?d = "bufDescTable s ! ?h"
  from less.prems have h: "?h < numBufs s" and len: "length (bufDescTable s) = numBufs s"
    by (simp_all add: wellFormed_def clockHand_advanceClock_less)
  consider (empty) "\<not> valid ?d"
    | (second_chance) "valid ?d" "refbit ?d"
    | (pinned_last) "valid ?d" "\<not> refbit ?d" "pinCnt ?d \<noteq> 0" "p + 1 = numBufs s"
    | (pinned_next) "valid ?d" "\<not> refbit ?d" "pinCnt ?d \<noteq> 0" "p + 1 \<noteq> numBufs s"
    | (victim) "valid ?d" "\<not> refbit ?d" "pinCnt ?d = 0"
    by blast
  then show ?case
  proof cases
    case empty
    then have "allocBuf_loop s p = Some (Inr ?h, ?a)"
      by (rule allocBuf_loop_empty)
    moreover from h empty have "allocBuf_post s (Inr ?h) ?a"
      by (simp add: allocBuf_post_def)
    ultimately show ?thesis by blast
  next
    case second_chance
    let ?s1 = "?a\<lparr>bufDescTable := (bufDescTable s)[?h := ?d\<lparr>refbit := False\<rparr>]\<rparr>"
    have eq: "allocBuf_loop s p = allocBuf_loop ?s1 p"
      using second_chance by (rule allocBuf_loop_refbit)
    have "\<exists>r s'. allocBuf_loop ?s1 p = Some (r, s') \<and> allocBuf_post ?s1 r s'"
    proof (rule less.hyps)
      show "length (filter refbit (bufDescTable ?s1)) + (numBufs ?s1 - p)
          < length (filter refbit (bufDescTable s)) + (numBufs s - p)"
        using h len second_chance refbit_count_less [of ?h "bufDescTable s"] by simp
      show "wellFormed ?s1" using less.prems h by (simp add: wellFormed_def)
      show "p < numBufs ?s1" using less.prems by simp
    qed
    then obtain r s' where run: "allocBuf_loop ?s1 p = Some (r, s')"
      and post: "allocBuf_post ?s1 r s'"
      by blast
    have keeps: "\<forall>i<numBufs s. keepsIdentity (bufDescTable s ! i) (bufDescTable ?s1 ! i)"
      using h len by (simp add: nth_list_update keepsIdentity_def)
    from post have "allocBuf_post s r s'"
      by (rule allocBuf_post_step) (use keeps len in simp_all)
    with eq run show ?thesis by simp
  next
    case pinned_last
    then have "allocBuf_loop s p = Some (Inl BufferExceeded, ?a)"
      by (rule allocBuf_loop_pinned_last)
    moreover from h have "allocBuf_post s (Inl BufferExceeded) ?a"
      by (simp add: allocBuf_post_def)
    ultimately show ?thesis by blast
  next
    case pinned_next
    then have eq: "allocBuf_loop s p = allocBuf_loop ?a (p + 1)"
      by (rule allocBuf_loop_pinned_next)
    have "\<exists>r s'. allocBuf_loop ?a (p + 1) = Some (r, s') \<and> allocBuf_post ?a r s'"
    proof (rule less.hyps)
      show "length (filter refbit (bufDescTable ?a)) + (numBufs ?a - (p + 1))
          < length (filter refbit (bufDescTable s)) + (numBufs s - p)"
        using less.prems by simp
      show "wellFormed ?a" using less.prems h by (simp add: wellFormed_def)
      show "p + 1 < numBufs ?a" using less.prems pinned_next(4) by simp
    qed
    then obtain r s' where run: "allocBuf_loop ?a (p + 1) = Some (r, s')"
      and post: "allocBuf_post ?a r s'"
      by blast
    from post have "allocBuf_post s r s'"
      by (rule allocBuf_post_step) simp_all
    with eq run show ?thesis by simp
  next
    case victim
    let ?s2 = "if dirty ?d then writeBack ?h ?a else ?a"
    from victim have "allocBuf_loop s p = Some (Inr ?h, removeIfPresent ?h ?s2)"
      by (rule allocBuf_loop_victim)
    moreover from h len victim have "allocBuf_post s (Inr ?h) (removeIfPresent ?h ?s2)"
      by (auto simp: allocBuf_post_def removeIfPresent_def writeBack_def ht_remove_def
          keepsIdentity_def nth_list_update split: option.splits)
    ultimately show ?thesis by blast
  qed
qed

lemma advanceClock_mod:
  "wellFormed s \<Longrightarrow> clockHand (advanceClock s) = (clockHand s + 1) mod numBufs s"
  by (simp add: clockHand_advanceClock wellFormed_def)

lemma removeIfPresent_eq:
  "removeIfPresent i s =
     s\<lparr>hashTable := (hashTable s)((file (bufDescTable s ! i), pageNo (bufDescTable s ! i)) := None)\<rparr>"
  by (cases "hashTable s (file (bufDescTable s ! i), pageNo (bufDescTable s ! i))")
    (simp_all add: removeIfPresent_def ht_remove_def fun_upd_idem)

lemma clear_dirty_id: "\<not> dirty (t ! i) \<Longrightarrow> t[i := (t ! i)\<lparr>dirty := False\<rparr>] = t"
proof -
  assume "\<not> dirty (t ! i)"
  then have "(t ! i)\<lparr>dirty := False\<rparr> = t ! i" by (cases "t ! i") simp
  then show ?thesis by simp
qed

lemma allocBuf_first_frame:
  assumes wf: "wellFormed s"
    and all: "\<forall>d\<in>set (bufDescTable s). valid d \<and> pinCnt d = 0 \<and> \<not> refbit d"
  shows "allocBuf s =
     Some (Inr ((clockHand s + 1) mod numBufs s),
       (let v = (clockHand s + 1) mod numBufs s; d = bufDescTable s ! v
        in s\<lparr>clockHand := v,
             fileCalls := fileCalls s @ (if dirty d then [File_writePage (file d) (bufPool s ! v)] else []),
             bufDescTable := (bufDescTable s)[v := d\<lparr>dirty := False\<rparr>],
             hashTable := (hashTable s)((file d, pageNo d) := None)\<rparr>))"
proof -
  let ?a = "advanceClock s"
  let ?v = "(clockHand s + 1) mod numBufs s"
  let ?d = "bufDescTable s ! ?v"
  from wf have v: "clockHand ?a = ?v" by (rule advanceClock_mod)
  from wf have lt: "?v < length (bufDescTable s)" by (simp add: wellFormed_def)
  then have "?d \<in> set (bufDescTable s)" by simp
  with all have d: "valid ?d" "pinCnt ?d = 0" "\<not> refbit ?d" by blast+
  have a: "?a = s\<lparr>clockHand := ?v\<rparr>"
    using v by (simp add: advanceClock_def Let_def)
  have "allocBuf s = Some (Inr ?v, removeIfPresent ?v (if dirty ?d then writeBack ?v ?a else ?a))"
    unfolding allocBuf_def using d allocBuf_loop_victim [of s 0] by (simp add: v)
  also have "removeIfPresent ?v (if dirty ?d then writeBack ?v ?a else ?a) =
      s\<lparr>clockHand := ?v,
        fileCalls := fileCalls s @ (if dirty ?d then [File_writePage (file ?d) (bufPool s ! ?v)] else []),
        bufDescTable := (bufDescTable s)[?v := ?d\<lparr>dirty := False\<rparr>],
        hashTable := (hashTable s)((file ?d, pageNo ?d) := None)\<rparr>"
  proof (cases "dirty ?d")
    case True
    with lt show ?thesis by (simp add: removeIfPresent_eq writeBack_def a)
  next
    case False
    then show ?thesis by (simp add: removeIfPresent_eq a clear_dirty_id)
  qed
  finally show ?thesis by (simp add: Let_def)
qed

subsection \<open>The operations return\<close>

text \<open>
  The loop of \<^verbatim>\<open>allocBuf\<close> leaves after at most two turns of the clock, so in a
  well-formed state \<^verbatim>\<open>allocBuf\<close>, \<^verbatim>\<open>readPage\<close> and \<^verbatim>\<open>allocPage\<close> return or throw.
\<close>

lemma allocBuf_returns:
  assumes "wellFormed s"
  shows "\<exists>r s'. allocBuf s = Some (r, s')"
proof -
  from assms have "0 < numBufs s" by (simp add: wellFormed_def)
  with assms show ?thesis
    unfolding allocBuf_def using allocBuf_loop_total [of s 0] by blast
qed

lemma readPage_returns:
  assumes "wellFormed s"
  shows "\<exists>r s'. readPage fp pn rd s = Some (r, s')"
proof -
  from allocBuf_returns [OF assms] obtain r1 s1 where "allocBuf s = Some (r1, s1)" by blast
  then show ?thesis
    by (cases "hashTable s (fp, pn)"; cases r1)
      (simp_all add: readPage_def ht_lookup_def Let_def)
qed

lemma allocPage_returns:
  assumes "wellFormed s"
  shows "\<exists>r s'. allocPage fp p s = Some (r, s')"
proof -
  let ?s0 = "s\<lparr>fileCalls := fileCalls s @ [File_allocatePage fp]\<rparr>"
  from assms have "wellFormed ?s0" by (simp add: wellFormed_def)
  from allocBuf_returns [OF this] obtain r1 s1 where "allocBuf ?s0 = Some (r1, s1)" by blast
  then show ?thesis
    by (cases r1) (simp_all add: allocPage_def Let_def)
qed

subsection \<open>A sweep over a pool whose frames are all pinned\<close>

lemma clockHand_advanceClock_wf:
  "wellFormed s \<Longrightarrow>
   clockHand (advanceClock s) = (if clockHand s + 1 = numBufs s then 0 else clockHand s + 1)"
  by (auto simp: clockHand_advanceClock wellFormed_def)

lemma stepsTo_next:
  assumes "hand < n" and "i < n" and "h = (if hand + 1 = n then 0 else hand + 1)"
  shows "stepsTo n hand h = 0" and "i \<noteq> h \<Longrightarrow> stepsTo n h i + 1 = stepsTo n hand i"
  using assms by (auto simp: stepsTo_def)

lemma stepsTo_less: "hand < n \<Longrightarrow> i < n \<Longrightarrow> stepsTo n hand i < n"
  by (auto simp: stepsTo_def)

lemma stepsTo_0: "hand < n \<Longrightarrow> i < n \<Longrightarrow> stepsTo n hand i = 0 \<Longrightarrow> 
   i = (if hand + 1 = n then 0 else hand + 1)"
  by (auto simp: stepsTo_def split: if_splits)

lemma clear_refbit_map:
  "map (\<lambda>d. d\<lparr>refbit := False\<rparr>) (t[i := (t ! i)\<lparr>refbit := False\<rparr>]) = map (\<lambda>d. d\<lparr>refbit := False\<rparr>) t"
proof (cases "i < length t")
  case True
  then show ?thesis by (intro nth_equalityI) (auto simp: nth_list_update)
next
  case False
  then show ?thesis by (simp add: list_update_beyond)
qed


lemma no_refbit_map:
  "\<forall>i<length t. \<not> refbit (t ! i) \<Longrightarrow> map (\<lambda>d. d\<lparr>refbit := False\<rparr>) t = t"
  by (rule nth_equalityI) simp_all

lemma allPinned_nth:
  "allPinned s \<Longrightarrow> i < length (bufDescTable s) \<Longrightarrow>
   valid (bufDescTable s ! i) \<and> pinCnt (bufDescTable s ! i) \<noteq> 0"
  by (auto simp: allPinned_def)

lemma advanceClock_update_clockHand [simp]:
  "(advanceClock s)\<lparr>clockHand := c\<rparr> = s\<lparr>clockHand := c\<rparr>"
  by (simp add: advanceClock_def Let_def)

lemma allocBuf_loop_all_pinned:
  assumes "wellFormed s" and "allPinned s" and "p < numBufs s"
    and "\<forall>i<numBufs s. refbit (bufDescTable s ! i) \<longrightarrow>
           stepsTo (numBufs s) (clockHand s) i + p < numBufs s"
  shows "\<exists>c<numBufs s. allocBuf_loop s p =
     Some (Inl BufferExceeded,
       s\<lparr>clockHand := c, bufDescTable := map (\<lambda>d. d\<lparr>refbit := False\<rparr>) (bufDescTable s)\<rparr>)"
  using assms
proof (induction "length (filter refbit (bufDescTable s)) + (numBufs s - p)"
    arbitrary: s p rule: less_induct)
  case less
  let ?a = "advanceClock s"
  let ?h = "clockHand ?a"
  let ?d = "bufDescTable s ! ?h"
  let ?n = "numBufs s"
  from less.prems have wf: "wellFormed s" and hand: "clockHand s < ?n"
    and len: "length (bufDescTable s) = ?n"
    by (simp_all add: wellFormed_def)
  from wf have h: "?h < ?n" by (simp add: wellFormed_def clockHand_advanceClock_less)
  from wf have h_eq: "?h = (if clockHand s + 1 = ?n then 0 else clockHand s + 1)"
    by (rule clockHand_advanceClock_wf)
  from less.prems(2) h len have d: "valid ?d" "pinCnt ?d \<noteq> 0"
    using allPinned_nth [of s ?h] by simp_all
  note J = less.prems(4)
  consider (second_chance) "refbit ?d"
    | (pinned_last) "\<not> refbit ?d" "p + 1 = ?n"
    | (pinned_next) "\<not> refbit ?d" "p + 1 \<noteq> ?n"
    by blast
  then show ?case
  proof cases
    case second_chance
    let ?s1 = "?a\<lparr>bufDescTable := (bufDescTable s)[?h := ?d\<lparr>refbit := False\<rparr>]\<rparr>"
    have eq: "allocBuf_loop s p = allocBuf_loop ?s1 p"
      using d(1) second_chance by (rule allocBuf_loop_refbit)
    have "\<exists>c<numBufs ?s1. allocBuf_loop ?s1 p =
       Some (Inl BufferExceeded,
         ?s1\<lparr>clockHand := c,
             bufDescTable := map (\<lambda>d. d\<lparr>refbit := False\<rparr>) (bufDescTable ?s1)\<rparr>)"
    proof (rule less.hyps)
      show "length (filter refbit (bufDescTable ?s1)) + (numBufs ?s1 - p)
          < length (filter refbit (bufDescTable s)) + (numBufs s - p)"
        using h len second_chance refbit_count_less [of ?h "bufDescTable s"] by simp
      show "wellFormed ?s1" using wf h by (simp add: wellFormed_def)
      show "allPinned ?s1"
        using less.prems(2) d by (auto simp: allPinned_def dest!: set_update_subset_insert [THEN subsetD])
      show "p < numBufs ?s1" using less.prems by simp
      show "\<forall>i<numBufs ?s1. refbit (bufDescTable ?s1 ! i) \<longrightarrow>
          stepsTo (numBufs ?s1) (clockHand ?s1) i + p < numBufs ?s1"
      proof (intro allI impI)
        fix i assume i: "i < numBufs ?s1" and r: "refbit (bufDescTable ?s1 ! i)"
        from r h len have ne: "i \<noteq> ?h" by (auto simp: nth_list_update split: if_splits)
        with r h len have "refbit (bufDescTable s ! i)" by (simp add: nth_list_update)
        with J i have "stepsTo ?n (clockHand s) i + p < ?n" by simp
        moreover have "stepsTo ?n ?h i + 1 = stepsTo ?n (clockHand s) i"
          using hand i h_eq ne by (intro stepsTo_next(2)) simp_all
        ultimately show "stepsTo (numBufs ?s1) (clockHand ?s1) i + p < numBufs ?s1" by simp
      qed
    qed
    then obtain c where "c < ?n" and "allocBuf_loop ?s1 p =
       Some (Inl BufferExceeded,
         ?s1\<lparr>clockHand := c,
             bufDescTable := map (\<lambda>d. d\<lparr>refbit := False\<rparr>) (bufDescTable ?s1)\<rparr>)"
      by auto
    with eq show ?thesis by (auto simp: clear_refbit_map)
  next
    case pinned_last
    have "\<forall>i<length (bufDescTable s). \<not> refbit (bufDescTable s ! i)"
    proof (intro allI impI notI)
      fix i assume i: "i < length (bufDescTable s)" and r: "refbit (bufDescTable s ! i)"
      with J len pinned_last(2) have "stepsTo ?n (clockHand s) i = 0" by auto
      with hand i len have "i = ?h" using stepsTo_0 [of "clockHand s" ?n i] h_eq by simp
      with r pinned_last(1) show False by simp
    qed
    then have "map (\<lambda>d. d\<lparr>refbit := False\<rparr>) (bufDescTable s) = bufDescTable s"
      by (rule no_refbit_map)
    then have st: "?a = s\<lparr>clockHand := ?h,
        bufDescTable := map (\<lambda>d. d\<lparr>refbit := False\<rparr>) (bufDescTable s)\<rparr>"
      by (simp add: advanceClock_def Let_def)
    have "allocBuf_loop s p = Some (Inl BufferExceeded, ?a)"
      using d pinned_last by (intro allocBuf_loop_pinned_last)
    also note st
    finally have "allocBuf_loop s p = Some (Inl BufferExceeded, s\<lparr>clockHand := ?h,
        bufDescTable := map (\<lambda>d. d\<lparr>refbit := False\<rparr>) (bufDescTable s)\<rparr>)"
      .
    with h show ?thesis by blast
  next
    case pinned_next
    have eq: "allocBuf_loop s p = allocBuf_loop ?a (p + 1)"
      using d pinned_next by (intro allocBuf_loop_pinned_next)
    have "\<exists>c<numBufs ?a. allocBuf_loop ?a (p + 1) =
       Some (Inl BufferExceeded,
         ?a\<lparr>clockHand := c,
            bufDescTable := map (\<lambda>d. d\<lparr>refbit := False\<rparr>) (bufDescTable ?a)\<rparr>)"
    proof (rule less.hyps)
      show "length (filter refbit (bufDescTable ?a)) + (numBufs ?a - (p + 1))
          < length (filter refbit (bufDescTable s)) + (numBufs s - p)"
        using less.prems by simp
      show "wellFormed ?a" using wf h by (simp add: wellFormed_def)
      show "allPinned ?a" using less.prems(2) by (simp add: allPinned_def)
      show "p + 1 < numBufs ?a" using less.prems pinned_next(2) by simp
      show "\<forall>i<numBufs ?a. refbit (bufDescTable ?a ! i) \<longrightarrow>
          stepsTo (numBufs ?a) (clockHand ?a) i + (p + 1) < numBufs ?a"
      proof (intro allI impI)
        fix i assume i: "i < numBufs ?a" and r: "refbit (bufDescTable ?a ! i)"
        from r pinned_next(1) have ne: "i \<noteq> ?h" by auto
        from r J i have "stepsTo ?n (clockHand s) i + p < ?n" by simp
        moreover have "stepsTo ?n ?h i + 1 = stepsTo ?n (clockHand s) i"
          using hand i h_eq ne by (intro stepsTo_next(2)) simp_all
        ultimately show "stepsTo (numBufs ?a) (clockHand ?a) i + (p + 1) < numBufs ?a" by simp
      qed
    qed
    then obtain c where "c < ?n" and "allocBuf_loop ?a (p + 1) =
       Some (Inl BufferExceeded,
         ?a\<lparr>clockHand := c,
            bufDescTable := map (\<lambda>d. d\<lparr>refbit := False\<rparr>) (bufDescTable ?a)\<rparr>)"
      by auto
    with eq show ?thesis by auto
  qed
qed

lemma allocBuf_all_pinned:
  assumes "wellFormed s" and "allPinned s"
  shows "\<exists>c<numBufs s. allocBuf s =
     Some (Inl BufferExceeded,
       s\<lparr>clockHand := c, bufDescTable := map (\<lambda>d. d\<lparr>refbit := False\<rparr>) (bufDescTable s)\<rparr>)"
  unfolding allocBuf_def using assms
  by (intro allocBuf_loop_all_pinned) (auto simp: wellFormed_def stepsTo_less)

subsection \<open>Running the operations on the example states\<close>

lemma new_BufMgr_2:
  "new_BufMgr 2 =
     \<lparr>numBufs = 2, bufDescTable = [empty_desc 0, empty_desc 1],
      bufPool = [empty_page, empty_page], hashTable = Map.empty, clockHand = 1, fileCalls = []\<rparr>"
  by (simp add: new_BufMgr_def numeral_2_eq_2)

lemmas eval_simps =
  allocBuf_def allocBuf_loop_empty allocBuf_loop_refbit allocBuf_loop_pinned_last
  allocBuf_loop_pinned_next allocBuf_loop_victim clockHand_advanceClock
  readPage_def unPinPage_def allocPage_def disposePage_def flushFile_def
  ht_lookup_def ht_insert_def ht_remove_def Set_desc_def Clear_def
  advanceClock_def empty_desc_def empty_page_def writeBack_def removeIfPresent_def Let_def

lemma twoPages_read_both:
  "\<exists>s1 r1 r2. readPage 1 10 (pageOf 10) (new_BufMgr 2) = Some (r1, s1) \<and>
     readPage 1 11 (pageOf 11) s1 = Some (r2, twoPages 1 True False 1 True)"
  by (simp add: eval_simps new_BufMgr_2 twoPages_def)

lemma twoPages_exceeded:
  "readPage 1 12 (pageOf 12) (twoPages 1 True False 1 True)
     = Some (Inl BufferExceeded, twoPages 1 False False 1 False)"
  by (simp add: eval_simps twoPages_def)

lemma twoPages_unpin1:
  "unPinPage 1 11 False (twoPages p0 r0 d0 1 r1) = (Inr (), twoPages p0 r0 d0 0 r1)"
  by (simp add: eval_simps twoPages_def)

lemma twoPages_unpin0:
  "unPinPage 1 10 isDirty (twoPages 1 r0 False p1 r1) = (Inr (), twoPages 0 r0 isDirty p1 r1)"
  by (simp add: eval_simps twoPages_def)

lemma twoPages_hit1:
  "readPage 1 11 rd (twoPages p0 r0 d0 0 r1) = Some (Inr 1, twoPages p0 r0 d0 1 True)"
  by (simp add: eval_simps twoPages_def)

lemma reachable_twoPages_all_pinned: "reachable (twoPages 1 True False 1 True)"
proof -
  obtain s1 r1 r2 where
    1: "readPage 1 10 (pageOf 10) (new_BufMgr 2) = Some (r1, s1)" and
    2: "readPage 1 11 (pageOf 11) s1 = Some (r2, twoPages 1 True False 1 True)"
    using twoPages_read_both by blast
  have "reachable (new_BufMgr 2)" by (simp add: reachable.init)
  then have "reachable s1" using 1 by (rule reachable.read)
  then show ?thesis using 2 by (rule reachable.read)
qed

lemma reachable_twoPages_swept: "reachable (twoPages 1 False False 1 False)"
  using reachable_twoPages_all_pinned twoPages_exceeded by (rule reachable.read)

lemma reachable_twoPages_revisit: "reachable (twoPages 1 False False 0 True)"
proof -
  have "reachable (twoPages 1 False False 0 False)"
    using reachable_twoPages_swept twoPages_unpin1 by (rule reachable.unpin)
  then have "reachable (twoPages 1 False False 1 True)"
    using twoPages_hit1 by (rule reachable.read)
  then show ?thesis
    using twoPages_unpin1 by (rule reachable.unpin)
qed

lemma wellFormed_twoPages: "wellFormed (twoPages p0 r0 d0 p1 r1)"
  by (simp add: wellFormed_def twoPages_def)

subsection \<open>Claim C1: when the allocator fails\<close>

text \<open>
  C1 says that \<^verbatim>\<open>allocBuf\<close> fails with \<open>BufferExceeded\<close> exactly when every frame of
  the pool is pinned, and returns a frame id whenever some frame is unpinned or empty.
  The comments of \<^verbatim>\<open>allocBuf\<close> say the same ("If all the pages are pinned, raise a
  BufferExceededException"), but the counter \<open>pinned\<close> counts visits of pinned frames,
  not pinned frames. In the state below, which a client reaches by \<open>reachable_twoPages_revisit\<close>,
  frame 0 is pinned with its reference bit clear and frame 1 is unpinned with its
  reference bit set. The hand visits frame 0 (count 1), clears the reference bit of
  frame 1, visits frame 0 again (count 2, the pool size) and the call throws, although
  frame 1 was free to be taken on the next step.
\<close>

theorem allocBuf_revisit_exceeded:
  "pinCnt (bufDescTable (twoPages 1 False False 0 True) ! 1) = 0 \<and>
   allocBuf (twoPages 1 False False 0 True) =
     Some (Inl BufferExceeded, (twoPages 1 False False 0 False)\<lparr>clockHand := 0\<rparr>)"
  by (simp add: eval_simps twoPages_def)

subsection \<open>Claim C4: allocation from a pool whose frames are all pinned\<close>

lemma allPinned_twoPages: "allPinned (twoPages 1 r0 d0 1 r1)"
  by (simp add: allPinned_def twoPages_def)

text \<open>
  C4 (as stated): when all frames are pinned, an allocation request raises
  \<open>BufferExceeded\<close> and leaves every field of every frame unchanged, \<open>refbit\<close> included.
  Counterexample: with both frames pinned and their reference bits set, the sweep clears
  both reference bits before it throws.
\<close>

theorem allocBuf_all_pinned_clears_refbit:
  "allPinned (twoPages 1 True False 1 True) \<and>
   allocBuf (twoPages 1 True False 1 True) =
     Some (Inl BufferExceeded, twoPages 1 False False 1 False) \<and>
   refbit (bufDescTable (twoPages 1 True False 1 True) ! 0) \<and>
   \<not> refbit (bufDescTable (twoPages 1 False False 1 False) ! 0)"
  by (simp add: eval_simps twoPages_def allPinned_def)

text \<open>
  C4 (amended): in a well-formed state whose frames are all valid and pinned,
  \<^verbatim>\<open>allocBuf\<close>, \<^verbatim>\<open>readPage\<close> of a page that is not in the pool and \<^verbatim>\<open>allocPage\<close>
  all raise \<open>BufferExceeded\<close>. Afterwards every frame has its \<open>valid\<close>, \<open>dirty\<close>,
  \<open>pinCnt\<close>, \<open>file\<close>, \<open>pageNo\<close> and \<open>frameNo\<close> as before and its \<open>refbit\<close>
  cleared; the pool and the hash table are as before; the clock hand is somewhere in the
  pool; \<^verbatim>\<open>allocPage\<close> has made its call of \<^verbatim>\<open>allocatePage\<close> on the file.
\<close>

theorem allocation_exhausted:
  assumes "wellFormed s" and "allPinned s"
  shows "(\<exists>c<numBufs s.
            allocBuf s =
              Some (Inl BufferExceeded,
                s\<lparr>clockHand := c,
                  bufDescTable := map (\<lambda>d. d\<lparr>refbit := False\<rparr>) (bufDescTable s)\<rparr>) \<and>
            (hashTable s (fp, pn) = None \<longrightarrow>
               readPage fp pn rd s =
                 Some (Inl BufferExceeded,
                   s\<lparr>clockHand := c,
                     bufDescTable := map (\<lambda>d. d\<lparr>refbit := False\<rparr>) (bufDescTable s)\<rparr>))) \<and>
         (\<exists>c<numBufs s.
            allocPage fp p s =
              Some (Inl BufferExceeded,
                s\<lparr>clockHand := c,
                  bufDescTable := map (\<lambda>d. d\<lparr>refbit := False\<rparr>) (bufDescTable s),
                  fileCalls := fileCalls s @ [File_allocatePage fp]\<rparr>))"
proof
  from assms obtain c where "c < numBufs s" and
    "allocBuf s = Some (Inl BufferExceeded,
        s\<lparr>clockHand := c, bufDescTable := map (\<lambda>d. d\<lparr>refbit := False\<rparr>) (bufDescTable s)\<rparr>)"
    using allocBuf_all_pinned by blast
  then show "\<exists>c<numBufs s.
      allocBuf s =
        Some (Inl BufferExceeded,
          s\<lparr>clockHand := c,
            bufDescTable := map (\<lambda>d. d\<lparr>refbit := False\<rparr>) (bufDescTable s)\<rparr>) \<and>
      (hashTable s (fp, pn) = None \<longrightarrow>
         readPage fp pn rd s =
           Some (Inl BufferExceeded,
             s\<lparr>clockHand := c,
               bufDescTable := map (\<lambda>d. d\<lparr>refbit := False\<rparr>) (bufDescTable s)\<rparr>))"
    by (intro exI [of _ c]) (simp add: readPage_def ht_lookup_def)
next
  let ?s0 = "s\<lparr>fileCalls := fileCalls s @ [File_allocatePage fp]\<rparr>"
  from assms have "wellFormed ?s0" and "allPinned ?s0"
    by (simp_all add: wellFormed_def allPinned_def)
  then obtain c where "c < numBufs ?s0" and
    "allocBuf ?s0 = Some (Inl BufferExceeded,
        ?s0\<lparr>clockHand := c, bufDescTable := map (\<lambda>d. d\<lparr>refbit := False\<rparr>) (bufDescTable ?s0)\<rparr>)"
    using allocBuf_all_pinned by blast
  then show "\<exists>c<numBufs s.
      allocPage fp p s =
        Some (Inl BufferExceeded,
          s\<lparr>clockHand := c,
            bufDescTable := map (\<lambda>d. d\<lparr>refbit := False\<rparr>) (bufDescTable s),
            fileCalls := fileCalls s @ [File_allocatePage fp]\<rparr>)"
    by (intro exI [of _ c]) (simp add: allocPage_def Let_def)
qed

theorem allocation_exhausted_witness:
  "wellFormed (twoPages 1 True False 1 True) \<and> allPinned (twoPages 1 True False 1 True) \<and>
   (\<exists>s'. readPage 1 12 (pageOf 12) (twoPages 1 True False 1 True) =
      Some (Inl BufferExceeded, s')) \<and>
   (\<exists>s'. allocPage 1 (pageOf 12) (twoPages 1 True False 1 True) =
      Some (Inl BufferExceeded, s'))"
proof -
  have "hashTable (twoPages 1 True False 1 True) (1, 12) = None"
    by (simp add: twoPages_def)
  with allocation_exhausted [OF wellFormed_twoPages allPinned_twoPages,
      of True False True 1 12 "pageOf 12" "pageOf 12"]
    wellFormed_twoPages [of 1 True False 1 True] allPinned_twoPages [of True False True]
  show ?thesis
    by blast
qed

subsection \<open>Claim C9: \<^verbatim>\<open>allocPage\<close> allocates in the file before it asks for a frame\<close>

text \<open>
  C9: \<^verbatim>\<open>allocPage\<close> calls \<^verbatim>\<open>file->allocatePage()\<close> before \<^verbatim>\<open>allocBuf\<close>. So when all
  frames are pinned it raises \<open>BufferExceeded\<close> with the call of \<^verbatim>\<open>allocatePage\<close> already
  made (it is the last call in the log, and no call deletes the page again); the outcome
  carries no page number and no handle, and the hash table and the pool are as before,
  so the new page is not registered.
\<close>

theorem allocPage_exhausted_after_file_allocation:
  assumes "wellFormed s" and "allPinned s"
  shows "\<exists>s'. allocPage fp p s = Some (Inl BufferExceeded, s') \<and>
           fileCalls s' = fileCalls s @ [File_allocatePage fp] \<and>
           hashTable s' = hashTable s \<and> bufPool s' = bufPool s"
proof -
  let ?s0 = "s\<lparr>fileCalls := fileCalls s @ [File_allocatePage fp]\<rparr>"
  from assms have "wellFormed ?s0" and "allPinned ?s0"
    by (simp_all add: wellFormed_def allPinned_def)
  then obtain c where
    "allocBuf ?s0 = Some (Inl BufferExceeded,
        ?s0\<lparr>clockHand := c, bufDescTable := map (\<lambda>d. d\<lparr>refbit := False\<rparr>) (bufDescTable ?s0)\<rparr>)"
    using allocBuf_all_pinned by blast
  then show ?thesis
    by (simp add: allocPage_def Let_def)
qed

theorem allocPage_exhausted_after_file_allocation_witness:
  "wellFormed (twoPages 1 True False 1 True) \<and> allPinned (twoPages 1 True False 1 True) \<and>
   (\<exists>s'. allocPage 1 (pageOf 12) (twoPages 1 True False 1 True) =
        Some (Inl BufferExceeded, s') \<and>
      fileCalls s' = [File_readPage 1 10, File_readPage 1 11, File_allocatePage 1] \<and>
      hashTable s' (1, 12) = None)"
proof -
  have "fileCalls (twoPages 1 True False 1 True) = [File_readPage 1 10, File_readPage 1 11]"
    and "hashTable (twoPages 1 True False 1 True) (1, 12) = None"
    by (simp_all add: twoPages_def)
  moreover note wf = wellFormed_twoPages [of 1 True False 1 True]
    and ap = allPinned_twoPages [of True False True]
  ultimately show ?thesis
    using allocPage_exhausted_after_file_allocation [OF wf ap, of 1 "pageOf 12"] wf ap
    by auto
qed

subsection \<open>Claim C5: eviction from a pool of unpinned, unreferenced pages\<close>

text \<open>
  C5: when all frames are valid, unpinned and have their reference bit clear, an
  allocation takes the first frame the clock hand comes to, \<open>(clockHand + 1) mod numBufs\<close>.
  If that frame is dirty, its contents are passed to \<^verbatim>\<open>writePage\<close> of its file and its
  dirty bit is cleared; its entry leaves the hash table. In \<^verbatim>\<open>readPage\<close> (on a miss) and
  in \<^verbatim>\<open>allocPage\<close> the write-back of the old contents comes before the frame is given
  its new page: \<^verbatim>\<open>readPage\<close> logs it before its own \<^verbatim>\<open>File::readPage\<close>, and the page
  written is the one the pool held before.
\<close>

theorem eviction_takes_first_frame:
  assumes "wellFormed s"
    and "\<forall>d\<in>set (bufDescTable s). valid d \<and> pinCnt d = 0 \<and> \<not> refbit d"
  shows
    "let v = (clockHand s + 1) mod numBufs s;
         d = bufDescTable s ! v;
         wb = (if dirty d then [File_writePage (file d) (bufPool s ! v)] else [])
     in allocBuf s =
          Some (Inr v,
            s\<lparr>clockHand := v,
              fileCalls := fileCalls s @ wb,
              bufDescTable := (bufDescTable s)[v := d\<lparr>dirty := False\<rparr>],
              hashTable := (hashTable s)((file d, pageNo d) := None)\<rparr>) \<and>
        (hashTable s (fp, pn) = None \<longrightarrow>
           readPage fp pn rd s =
             Some (Inr v,
               s\<lparr>clockHand := v,
                 fileCalls := fileCalls s @ wb @ [File_readPage fp pn],
                 bufPool := (bufPool s)[v := rd],
                 hashTable := ((hashTable s)((file d, pageNo d) := None))((fp, pn) \<mapsto> v),
                 bufDescTable := (bufDescTable s)[v := Set_desc fp pn d]\<rparr>)) \<and>
        allocPage fp p s =
          Some (Inr (page_number p, v),
            s\<lparr>clockHand := v,
              fileCalls := fileCalls s @ [File_allocatePage fp] @ wb,
              bufPool := (bufPool s)[v := p],
              hashTable :=
                ((hashTable s)((file d, pageNo d) := None))((fp, page_number p) \<mapsto> v),
              bufDescTable := (bufDescTable s)[v := Set_desc fp (page_number p) d]\<rparr>)"
proof -
  let ?v = "(clockHand s + 1) mod numBufs s"
  let ?s0 = "s\<lparr>fileCalls := fileCalls s @ [File_allocatePage fp]\<rparr>"
  from assms(1) have v: "?v < length (bufDescTable s)"
    by (simp add: wellFormed_def)
  have set_clean: "Set_desc f n (d\<lparr>dirty := False\<rparr>) = Set_desc f n d" for f n d
    by (simp add: Set_desc_def)
  note a = allocBuf_first_frame [OF assms]
  from assms have "wellFormed ?s0"
    and "\<forall>d\<in>set (bufDescTable ?s0). valid d \<and> pinCnt d = 0 \<and> \<not> refbit d"
    by (simp_all add: wellFormed_def)
  note a0 = allocBuf_first_frame [OF this]
  show ?thesis
    unfolding Let_def
  proof (intro conjI impI)
    show "allocBuf s = Some (Inr ?v,
        s\<lparr>clockHand := ?v,
          fileCalls := fileCalls s @
            (if dirty (bufDescTable s ! ?v)
             then [File_writePage (file (bufDescTable s ! ?v)) (bufPool s ! ?v)] else []),
          bufDescTable := (bufDescTable s)[?v := (bufDescTable s ! ?v)\<lparr>dirty := False\<rparr>],
          hashTable := (hashTable s)
            ((file (bufDescTable s ! ?v), pageNo (bufDescTable s ! ?v)) := None)\<rparr>)"
      using a by (simp add: Let_def)
  next
    assume "hashTable s (fp, pn) = None"
    then show "readPage fp pn rd s = Some (Inr ?v,
        s\<lparr>clockHand := ?v,
          fileCalls := fileCalls s @
            (if dirty (bufDescTable s ! ?v)
             then [File_writePage (file (bufDescTable s ! ?v)) (bufPool s ! ?v)] else []) @
            [File_readPage fp pn],
          bufPool := (bufPool s)[?v := rd],
          hashTable := ((hashTable s)
            ((file (bufDescTable s ! ?v), pageNo (bufDescTable s ! ?v)) := None))((fp, pn) \<mapsto> ?v),
          bufDescTable := (bufDescTable s)[?v := Set_desc fp pn (bufDescTable s ! ?v)]\<rparr>)"
      using v by (simp add: readPage_def ht_lookup_def ht_insert_def a Let_def set_clean)
  next
    show "allocPage fp p s = Some (Inr (page_number p, ?v),
        s\<lparr>clockHand := ?v,
          fileCalls := fileCalls s @ [File_allocatePage fp] @
            (if dirty (bufDescTable s ! ?v)
             then [File_writePage (file (bufDescTable s ! ?v)) (bufPool s ! ?v)] else []),
          bufPool := (bufPool s)[?v := p],
          hashTable := ((hashTable s)
            ((file (bufDescTable s ! ?v), pageNo (bufDescTable s ! ?v)) := None))
              ((fp, page_number p) \<mapsto> ?v),
          bufDescTable := (bufDescTable s)[?v := Set_desc fp (page_number p) (bufDescTable s ! ?v)]\<rparr>)"
      using v by (simp add: allocPage_def ht_insert_def a0 Let_def set_clean)
  qed
qed

theorem eviction_takes_first_frame_witness:
  "wellFormed (twoPages 0 False True 0 False) \<and>
   (\<exists>s'. readPage 1 12 (pageOf 12) (twoPages 0 False True 0 False) = Some (Inr 0, s') \<and>
      fileCalls s' =
        [File_readPage 1 10, File_readPage 1 11, File_writePage 1 (pageOf 10), File_readPage 1 12] \<and>
      bufPool s' = [pageOf 12, pageOf 11] \<and>
      hashTable s' (1, 10) = None \<and> hashTable s' (1, 12) = Some 0)"
proof -
  note wf = wellFormed_twoPages [of 0 False True 0 False]
  have unpinned: "\<forall>d\<in>set (bufDescTable (twoPages 0 False True 0 False)).
      valid d \<and> pinCnt d = 0 \<and> \<not> refbit d"
    by (simp add: twoPages_def)
  show ?thesis
    using eviction_takes_first_frame [OF wf unpinned, of 1 12 "pageOf 12" "pageOf 12"] wf
    by (simp add: twoPages_def Let_def)
qed

subsection \<open>Claim C6: the cases of \<^verbatim>\<open>unPinPage\<close>\<close>

text \<open>
  C6: \<^verbatim>\<open>unPinPage(file, pageNo, isDirty)\<close> does nothing and does not raise when the page
  is not in the hash table; when the page is in frame \<open>frame\<close> with a positive pin count,
  it takes one from the pin count and sets \<open>dirty\<close> to \<open>dirty \<or> isDirty\<close>, so
  \<open>isDirty = False\<close> leaves a set dirty bit set; when the pin count is 0 it raises
  \<open>PageNotPinned\<close> and changes nothing, so the count is never taken below 0.
\<close>

theorem unPinPage_cases:
  "(hashTable s (fp, pn) = None \<longrightarrow> unPinPage fp pn isDirty s = (Inr (), s)) \<and>
   (\<forall>frame. hashTable s (fp, pn) = Some frame \<and> 0 < pinCnt (bufDescTable s ! frame) \<longrightarrow>
      unPinPage fp pn isDirty s =
        (Inr (), s\<lparr>bufDescTable := (bufDescTable s)[frame :=
           (bufDescTable s ! frame)\<lparr>pinCnt := pinCnt (bufDescTable s ! frame) - 1,
              dirty := dirty (bufDescTable s ! frame) \<or> isDirty\<rparr>]\<rparr>)) \<and>
   (\<forall>frame. hashTable s (fp, pn) = Some frame \<and> pinCnt (bufDescTable s ! frame) = 0 \<longrightarrow>
      unPinPage fp pn isDirty s = (Inl PageNotPinned, s))"
  by (simp add: unPinPage_def ht_lookup_def Let_def)

theorem unPinPage_cases_witness:
  "unPinPage 1 12 True (twoPages 1 True True 1 True) = (Inr (), twoPages 1 True True 1 True) \<and>
   unPinPage 1 10 False (twoPages 2 True True 1 True) = (Inr (), twoPages 1 True True 1 True) \<and>
   unPinPage 1 10 True (twoPages 0 True False 1 True) =
     (Inl PageNotPinned, twoPages 0 True False 1 True)"
proof -
  have "hashTable (twoPages 1 True True 1 True) (1, 12) = None"
    and "hashTable (twoPages 2 True True 1 True) (1, 10) = Some 0 \<and>
         0 < pinCnt (bufDescTable (twoPages 2 True True 1 True) ! 0)"
    and "hashTable (twoPages 0 True False 1 True) (1, 10) = Some 0 \<and>
         pinCnt (bufDescTable (twoPages 0 True False 1 True) ! 0) = 0"
    by (simp_all add: twoPages_def)
  with unPinPage_cases [of "twoPages 1 True True 1 True" 1 12 True]
    unPinPage_cases [of "twoPages 2 True True 1 True" 1 10 False]
    unPinPage_cases [of "twoPages 0 True False 1 True" 1 10 True]
  show ?thesis
    by (simp add: twoPages_def)
qed

subsection \<open>Claim C8: \<^verbatim>\<open>disposePage\<close> does not look at the pin count\<close>

text \<open>
  C8: for every page that is in the hash table, whatever the pin count of its frame,
  \<^verbatim>\<open>disposePage\<close> returns without an exception, having removed the entry from the hash
  table, cleared the frame descriptor (so a pinned frame is reclaimed under its holder)
  and called \<^verbatim>\<open>deletePage\<close> on the file.
\<close>

theorem disposePage_ignores_pins:
  assumes "hashTable s (fp, pn) = Some frame"
  shows "disposePage fp pn s =
     (Inr (), s\<lparr>hashTable := (hashTable s)((fp, pn) := None),
               bufDescTable := (bufDescTable s)[frame := Clear (bufDescTable s ! frame)],
               fileCalls := fileCalls s @ [File_deletePage fp pn]\<rparr>)"
  using assms by (simp add: disposePage_def ht_lookup_def ht_remove_def Let_def)

theorem disposePage_ignores_pins_witness:
  "pinCnt (bufDescTable (twoPages 3 True True 1 True) ! 0) = 3 \<and>
   (\<exists>s'. disposePage 1 10 (twoPages 3 True True 1 True) = (Inr (), s') \<and>
      hashTable s' (1, 10) = None \<and>
      bufDescTable s' ! 0 = empty_desc 0 \<and>
      fileCalls s' = [File_readPage 1 10, File_readPage 1 11, File_deletePage 1 10])"
proof -
  have "hashTable (twoPages 3 True True 1 True) (1, 10) = Some 0"
    by (simp add: twoPages_def)
  from disposePage_ignores_pins [OF this] show ?thesis
    by (simp add: twoPages_def Clear_def empty_desc_def)
qed

subsection \<open>Claim C10: \<^verbatim>\<open>disposePage\<close> writes nothing back\<close>

text \<open>
  C10: the only call \<^verbatim>\<open>disposePage\<close> makes on the File collaborator is \<^verbatim>\<open>deletePage\<close> of
  the page: no \<^verbatim>\<open>writePage\<close>, even when the frame is dirty. The pool contents, the clock
  hand, the other entries of the hash table and the descriptors of the other frames are
  as before.
\<close>

theorem disposePage_only_deletes:
  "fileCalls (snd (disposePage fp pn s)) = fileCalls s @ [File_deletePage fp pn] \<and>
   bufPool (snd (disposePage fp pn s)) = bufPool s \<and>
   clockHand (snd (disposePage fp pn s)) = clockHand s \<and>
   numBufs (snd (disposePage fp pn s)) = numBufs s \<and>
   (\<forall>k. k \<noteq> (fp, pn) \<longrightarrow> hashTable (snd (disposePage fp pn s)) k = hashTable s k) \<and>
   (\<forall>i. hashTable s (fp, pn) \<noteq> Some i \<longrightarrow>
      bufDescTable (snd (disposePage fp pn s)) ! i = bufDescTable s ! i)"
  by (cases "hashTable s (fp, pn)")
    (simp_all add: disposePage_def ht_lookup_def ht_remove_def Let_def)

theorem disposePage_only_deletes_witness:
  "dirty (bufDescTable (twoPages 0 False True 1 True) ! 0) \<and>
   fileCalls (snd (disposePage 1 10 (twoPages 0 False True 1 True))) =
     [File_readPage 1 10, File_readPage 1 11, File_deletePage 1 10] \<and>
   bufPool (snd (disposePage 1 10 (twoPages 0 False True 1 True))) = [pageOf 10, pageOf 11] \<and>
   hashTable (snd (disposePage 1 10 (twoPages 0 False True 1 True))) (1, 11) = Some 1 \<and>
   bufDescTable (snd (disposePage 1 10 (twoPages 0 False True 1 True))) ! 1 =
     bufDescTable (twoPages 0 False True 1 True) ! 1"
proof -
  have "(1::nat, 11::nat) \<noteq> (1, 10)"
    and "hashTable (twoPages 0 False True 1 True) (1, 10) \<noteq> Some 1"
    and "hashTable (twoPages 0 False True 1 True) (1, 11) = Some 1"
    by (simp_all add: twoPages_def)
  with disposePage_only_deletes [of 1 10 "twoPages 0 False True 1 True"]
  have "fileCalls (snd (disposePage 1 10 (twoPages 0 False True 1 True))) =
      fileCalls (twoPages 0 False True 1 True) @ [File_deletePage 1 10]"
    and "bufPool (snd (disposePage 1 10 (twoPages 0 False True 1 True))) =
      bufPool (twoPages 0 False True 1 True)"
    and "hashTable (snd (disposePage 1 10 (twoPages 0 False True 1 True))) (1, 11) = Some 1"
    and "bufDescTable (snd (disposePage 1 10 (twoPages 0 False True 1 True))) ! 1 =
      bufDescTable (twoPages 0 False True 1 True) ! 1"
    by simp_all
  then show ?thesis
    by (simp add: twoPages_def)
qed

subsection \<open>The invariants of the reachable states\<close>

lemma allocBuf_post_holds:
  assumes "wellFormed s" and "allocBuf s = Some (r, s')"
  shows "allocBuf_post s r s'"
proof -
  from assms(1) have "0 < numBufs s" by (simp add: wellFormed_def)
  with assms(1) obtain r0 s0 where "allocBuf_loop s 0 = Some (r0, s0)" and "allocBuf_post s r0 s0"
    using allocBuf_loop_total [of s 0] by blast
  with assms(2) show ?thesis by (simp add: allocBuf_def)
qed

lemma invariants_new_BufMgr:
  assumes "0 < bufs"
  shows "wellFormed (new_BufMgr bufs)" and "consistent (new_BufMgr bufs)"
    and "emptyCleared (new_BufMgr bufs)"
  using assms
  by (auto simp: wellFormed_def consistent_def emptyCleared_def new_BufMgr_def empty_desc_def)

lemma consistentI:
  assumes "\<And>i. i < numBufs s \<Longrightarrow> valid (bufDescTable s ! i) \<Longrightarrow>
      hashTable s (file (bufDescTable s ! i), pageNo (bufDescTable s ! i)) = Some i"
    and "\<And>fp pn i. hashTable s (fp, pn) = Some i \<Longrightarrow>
      i < numBufs s \<and> valid (bufDescTable s ! i) \<and>
      file (bufDescTable s ! i) = fp \<and> pageNo (bufDescTable s ! i) = pn"
  shows "consistent s"
  unfolding consistent_def using assms by blast

lemma consistent_validD:
  "consistent s \<Longrightarrow> i < numBufs s \<Longrightarrow> valid (bufDescTable s ! i) \<Longrightarrow>
   hashTable s (file (bufDescTable s ! i), pageNo (bufDescTable s ! i)) = Some i"
  unfolding consistent_def by blast

lemma consistent_entryD:
  assumes "consistent s" and "hashTable s (fp, pn) = Some i"
  shows "i < numBufs s" and "valid (bufDescTable s ! i)"
    and "file (bufDescTable s ! i) = fp" and "pageNo (bufDescTable s ! i) = pn"
  using assms unfolding consistent_def by blast+

lemma consistent_frame_update:
  assumes c: "consistent s" and f: "f < numBufs s" and len: "length (bufDescTable s) = numBufs s"
    and d: "valid d = valid (bufDescTable s ! f)" "file d = file (bufDescTable s ! f)"
      "pageNo d = pageNo (bufDescTable s ! f)"
  shows "consistent (s\<lparr>bufDescTable := (bufDescTable s)[f := d]\<rparr>)"
proof (rule consistentI)
  fix i
  assume "i < numBufs (s\<lparr>bufDescTable := (bufDescTable s)[f := d]\<rparr>)"
    and "valid (bufDescTable (s\<lparr>bufDescTable := (bufDescTable s)[f := d]\<rparr>) ! i)"
  then show "hashTable (s\<lparr>bufDescTable := (bufDescTable s)[f := d]\<rparr>)
      (file (bufDescTable (s\<lparr>bufDescTable := (bufDescTable s)[f := d]\<rparr>) ! i),
       pageNo (bufDescTable (s\<lparr>bufDescTable := (bufDescTable s)[f := d]\<rparr>) ! i)) = Some i"
    using consistent_validD [OF c, of i] f len d
    by (cases "i = f") simp_all
next
  fix fp pn i
  assume "hashTable (s\<lparr>bufDescTable := (bufDescTable s)[f := d]\<rparr>) (fp, pn) = Some i"
  then have "hashTable s (fp, pn) = Some i" by simp
  from consistent_entryD [OF c this] f len d
  show "i < numBufs (s\<lparr>bufDescTable := (bufDescTable s)[f := d]\<rparr>) \<and>
      valid (bufDescTable (s\<lparr>bufDescTable := (bufDescTable s)[f := d]\<rparr>) ! i) \<and>
      file (bufDescTable (s\<lparr>bufDescTable := (bufDescTable s)[f := d]\<rparr>) ! i) = fp \<and>
      pageNo (bufDescTable (s\<lparr>bufDescTable := (bufDescTable s)[f := d]\<rparr>) ! i) = pn"
    by (cases "i = f") simp_all
qed

lemma consistent_frame_cleared:
  assumes c: "consistent s" and f: "f < numBufs s" and len: "length (bufDescTable s) = numBufs s"
    and v: "valid (bufDescTable s ! f)" and d: "\<not> valid d"
  shows "consistent
     (s\<lparr>hashTable := (hashTable s)((file (bufDescTable s ! f), pageNo (bufDescTable s ! f)) := None),
        bufDescTable := (bufDescTable s)[f := d]\<rparr>)"
    (is "consistent ?s'")
proof (rule consistentI)
  fix i
  assume i: "i < numBufs ?s'" and vi: "valid (bufDescTable ?s' ! i)"
  with d f len have ne: "i \<noteq> f" by auto
  with i vi f len have "hashTable s (file (bufDescTable s ! i), pageNo (bufDescTable s ! i)) = Some i"
    using consistent_validD [OF c, of i] by simp
  moreover have "hashTable s (file (bufDescTable s ! f), pageNo (bufDescTable s ! f)) = Some f"
    using consistent_validD [OF c f v] .
  ultimately show "hashTable ?s' (file (bufDescTable ?s' ! i), pageNo (bufDescTable ?s' ! i)) = Some i"
    using ne f len by auto
next
  fix fp pn i
  assume h: "hashTable ?s' (fp, pn) = Some i"
  then have key: "(fp, pn) \<noteq> (file (bufDescTable s ! f), pageNo (bufDescTable s ! f))"
    and old: "hashTable s (fp, pn) = Some i"
    by (auto split: if_splits)
  note e = consistent_entryD [OF c old]
  from key e have "i \<noteq> f" by auto
  with e f len
  show "i < numBufs ?s' \<and> valid (bufDescTable ?s' ! i) \<and>
      file (bufDescTable ?s' ! i) = fp \<and> pageNo (bufDescTable ?s' ! i) = pn"
    by simp
qed

lemma emptyCleared_frame_update:
  assumes "emptyCleared s" and "valid d \<or> pinCnt d = 0 \<and> file d = NULL"
  shows "emptyCleared (s\<lparr>bufDescTable := (bufDescTable s)[f := d]\<rparr>)"
  using assms by (auto simp: emptyCleared_def dest!: set_update_subset_insert [THEN subsetD])


lemma emptyCleared_nth:
  "emptyCleared s \<longleftrightarrow>
     (\<forall>i<length (bufDescTable s). \<not> valid (bufDescTable s ! i) \<longrightarrow>
        pinCnt (bufDescTable s ! i) = 0 \<and> file (bufDescTable s ! i) = NULL)"
  unfolding emptyCleared_def by (metis in_set_conv_nth)

lemma keepsIdentityD:
  assumes "keepsIdentity d d'"
  shows "file d' = file d" and "pageNo d' = pageNo d" and "frameNo d' = frameNo d"
    and "pinCnt d' = pinCnt d" and "valid d' = valid d"
  using assms by (simp_all add: keepsIdentity_def)

lemma allocBuf_post_wellFormed:
  assumes "wellFormed s" and "allocBuf_post s r s1"
  shows "wellFormed s1"
  using assms by (simp add: wellFormed_def allocBuf_post_def)

lemma allocBuf_post_emptyCleared:
  assumes wf: "wellFormed s" and e: "emptyCleared s" and post: "allocBuf_post s r s1"
  shows "emptyCleared s1"
  unfolding emptyCleared_nth
proof (intro allI impI)
  fix i
  assume i: "i < length (bufDescTable s1)" and nv: "\<not> valid (bufDescTable s1 ! i)"
  from wf post i have i': "i < numBufs s" "i < length (bufDescTable s)"
    by (simp_all add: wellFormed_def allocBuf_post_def)
  with post have k: "keepsIdentity (bufDescTable s ! i) (bufDescTable s1 ! i)"
    by (simp add: allocBuf_post_def)
  from e i'(2) nv keepsIdentityD [OF k]
  show "pinCnt (bufDescTable s1 ! i) = 0 \<and> file (bufDescTable s1 ! i) = NULL"
    by (simp add: emptyCleared_nth)
qed

lemma allocBuf_post_failed_consistent:
  assumes c: "consistent s" and post: "allocBuf_post s (Inl e) s1"
  shows "consistent s1"
proof (rule consistentI)
  from post have n: "numBufs s1 = numBufs s" and h: "hashTable s1 = hashTable s"
    and k: "\<And>i. i < numBufs s \<Longrightarrow> keepsIdentity (bufDescTable s ! i) (bufDescTable s1 ! i)"
    by (simp_all add: allocBuf_post_def)
  {
    fix i
    assume "i < numBufs s1" and "valid (bufDescTable s1 ! i)"
    with n h keepsIdentityD [OF k [of i]] consistent_validD [OF c, of i]
    show "hashTable s1 (file (bufDescTable s1 ! i), pageNo (bufDescTable s1 ! i)) = Some i"
      by simp
  next
    fix fp pn i
    assume "hashTable s1 (fp, pn) = Some i"
    with h have old: "hashTable s (fp, pn) = Some i" by simp
    note e = consistent_entryD [OF c old]
    with n keepsIdentityD [OF k [OF e(1)]]
    show "i < numBufs s1 \<and> valid (bufDescTable s1 ! i) \<and>
        file (bufDescTable s1 ! i) = fp \<and> pageNo (bufDescTable s1 ! i) = pn"
      by simp
  }
qed

lemma allocBuf_post_install_consistent:
  assumes wf: "wellFormed s" and c: "consistent s" and post: "allocBuf_post s (Inr f) s1"
    and miss: "hashTable s (fp, pn) = None"
    and n2: "numBufs s2 = numBufs s1"
    and t2: "bufDescTable s2 = (bufDescTable s1)[f := Set_desc fp pn (bufDescTable s1 ! f)]"
    and h2: "hashTable s2 = ht_insert (hashTable s1) fp pn f"
  shows "consistent s2"
proof (rule consistentI)
  from post have n: "numBufs s1 = numBufs s" and f: "f < numBufs s"
    and len1: "length (bufDescTable s1) = length (bufDescTable s)"
    and k: "\<And>i. i < numBufs s \<Longrightarrow> keepsIdentity (bufDescTable s ! i) (bufDescTable s1 ! i)"
    and h1: "hashTable s1 =
      (if valid (bufDescTable s ! f)
       then (hashTable s)((file (bufDescTable s ! f), pageNo (bufDescTable s ! f)) := None)
       else hashTable s)"
    by (simp_all add: allocBuf_post_def)
  from wf have len: "length (bufDescTable s) = numBufs s" by (simp add: wellFormed_def)
  have h1_le: "hashTable s k = Some i" if "hashTable s1 k = Some i" for k i
    using that h1 by (auto split: if_splits)
  have key_f: "k \<noteq> (file (bufDescTable s ! f), pageNo (bufDescTable s ! f))"
    if "hashTable s1 k = Some i" "valid (bufDescTable s ! f)" for k i
    using that h1 by (auto split: if_splits)
  {
    fix i
    assume i: "i < numBufs s2" and v: "valid (bufDescTable s2 ! i)"
    show "hashTable s2 (file (bufDescTable s2 ! i), pageNo (bufDescTable s2 ! i)) = Some i"
    proof (cases "i = f")
      case True
      with f len len1 t2 h2 show ?thesis
        by (simp add: Set_desc_def ht_insert_def)
    next
      case False
      from i n n2 have i': "i < numBufs s" by simp
      note ki = keepsIdentityD [OF k [OF i']]
      from False t2 v ki have vi: "valid (bufDescTable s ! i)" by simp
      note hi = consistent_validD [OF c i' vi]
      have "hashTable s1 (file (bufDescTable s ! i), pageNo (bufDescTable s ! i)) = Some i"
      proof (cases "valid (bufDescTable s ! f)")
        case True
        from consistent_validD [OF c f True] hi False
        have "(file (bufDescTable s ! i), pageNo (bufDescTable s ! i)) \<noteq>
            (file (bufDescTable s ! f), pageNo (bufDescTable s ! f))"
          by auto
        with True h1 hi show ?thesis by simp
      next
        case False
        with h1 hi show ?thesis by simp
      qed
      moreover from hi miss
      have "(file (bufDescTable s ! i), pageNo (bufDescTable s ! i)) \<noteq> (fp, pn)" by auto
      ultimately show ?thesis
        using False t2 h2 ki by (simp add: ht_insert_def)
    qed
  next
    fix a b i
    assume h: "hashTable s2 (a, b) = Some i"
    show "i < numBufs s2 \<and> valid (bufDescTable s2 ! i) \<and>
        file (bufDescTable s2 ! i) = a \<and> pageNo (bufDescTable s2 ! i) = b"
    proof (cases "(a, b) = (fp, pn)")
      case True
      with h h2 have "i = f" by (simp add: ht_insert_def)
      with True f n n2 len len1 t2 show ?thesis by (simp add: Set_desc_def)
    next
      case False
      with h h2 have h': "hashTable s1 (a, b) = Some i"
        by (auto simp: ht_insert_def split: if_splits)
      note e = consistent_entryD [OF c h1_le [OF h']]
      have "i \<noteq> f"
      proof
        assume "i = f"
        with e key_f [OF h'] show False by simp
      qed
      with e keepsIdentityD [OF k [OF e(1)]] n n2 t2 show ?thesis by simp
    qed
  }
qed

lemma invariants_readPage:
  assumes wf: "wellFormed s" and c: "consistent s" and e: "emptyCleared s"
    and run: "readPage fp pn rd s = Some (r, s')"
  shows "wellFormed s' \<and> consistent s' \<and> emptyCleared s'"
proof (cases "hashTable s (fp, pn)")
  case (Some frame)
  let ?d = "(bufDescTable s ! frame)\<lparr>refbit := True, pinCnt := pinCnt (bufDescTable s ! frame) + 1\<rparr>"
  from Some run have s': "s' = s\<lparr>bufDescTable := (bufDescTable s)[frame := ?d]\<rparr>"
    by (auto simp: readPage_def ht_lookup_def Let_def)
  note en = consistent_entryD [OF c Some]
  from wf have len: "length (bufDescTable s) = numBufs s" by (simp add: wellFormed_def)
  have "wellFormed s'" using wf s' by (simp add: wellFormed_def)
  moreover have "consistent s'"
    unfolding s' using c en(1) len by (rule consistent_frame_update) simp_all
  moreover have "emptyCleared s'"
    unfolding s' using e by (rule emptyCleared_frame_update) (simp add: en(2))
  ultimately show ?thesis by simp
next
  case None
  with run obtain r1 s1 where a: "allocBuf s = Some (r1, s1)"
    by (auto simp: readPage_def ht_lookup_def split: option.splits)
  note post = allocBuf_post_holds [OF wf a]
  note wf1 = allocBuf_post_wellFormed [OF wf post]
  note e1 = allocBuf_post_emptyCleared [OF wf e post]
  show ?thesis
  proof (cases r1)
    case (Inl err)
    with None run a have "s' = s1"
      by (simp add: readPage_def ht_lookup_def)
    with wf1 e1 allocBuf_post_failed_consistent [OF c post [unfolded Inl]] show ?thesis
      by simp
  next
    case (Inr f)
    with None run a have s': "s' =
        s1\<lparr>fileCalls := fileCalls s1 @ [File_readPage fp pn],
          bufPool := (bufPool s1)[f := rd],
          hashTable := ht_insert (hashTable s1) fp pn f,
          bufDescTable := (bufDescTable s1)[f := Set_desc fp pn (bufDescTable s1 ! f)]\<rparr>"
      by (simp add: readPage_def ht_lookup_def)
    have "wellFormed s'" using wf1 by (simp add: s' wellFormed_def)
    moreover have "consistent s'"
      using wf c post [unfolded Inr] None by (rule allocBuf_post_install_consistent) (simp_all add: s')
    moreover have "emptyCleared s'"
      using emptyCleared_frame_update [OF e1, of "Set_desc fp pn (bufDescTable s1 ! f)" f]
      by (simp add: s' Set_desc_def emptyCleared_def)
    ultimately show ?thesis by simp
  qed
qed

lemma invariants_allocPage:
  assumes wf: "wellFormed s" and c: "consistent s" and e: "emptyCleared s"
    and fresh: "hashTable s (fp, page_number p) = None"
    and run: "allocPage fp p s = Some (r, s')"
  shows "wellFormed s' \<and> consistent s' \<and> emptyCleared s'"
proof -
  let ?s0 = "s\<lparr>fileCalls := fileCalls s @ [File_allocatePage fp]\<rparr>"
  from wf have wf0: "wellFormed ?s0" by (simp add: wellFormed_def)
  from c have c0: "consistent ?s0" by (simp add: consistent_def)
  from e have e0: "emptyCleared ?s0" by (simp add: emptyCleared_def)
  from fresh have fresh0: "hashTable ?s0 (fp, page_number p) = None" by simp
  from run obtain r1 s1 where a: "allocBuf ?s0 = Some (r1, s1)"
    by (auto simp: allocPage_def Let_def split: option.splits)
  note post = allocBuf_post_holds [OF wf0 a]
  note wf1 = allocBuf_post_wellFormed [OF wf0 post]
  note e1 = allocBuf_post_emptyCleared [OF wf0 e0 post]
  show ?thesis
  proof (cases r1)
    case (Inl err)
    with run a have "s' = s1"
      by (simp add: allocPage_def Let_def)
    with wf1 e1 allocBuf_post_failed_consistent [OF c0 post [unfolded Inl]] show ?thesis
      by simp
  next
    case (Inr f)
    with run a have s': "s' =
        s1\<lparr>bufPool := (bufPool s1)[f := p],
          hashTable := ht_insert (hashTable s1) fp (page_number p) f,
          bufDescTable := (bufDescTable s1)[f := Set_desc fp (page_number p) (bufDescTable s1 ! f)]\<rparr>"
      by (simp add: allocPage_def Let_def)
    have "wellFormed s'" using wf1 by (simp add: s' wellFormed_def)
    moreover have "consistent s'"
      using wf0 c0 post [unfolded Inr] fresh0
      by (rule allocBuf_post_install_consistent) (simp_all add: s')
    moreover have "emptyCleared s'"
      using emptyCleared_frame_update [OF e1, of "Set_desc fp (page_number p) (bufDescTable s1 ! f)" f]
      by (simp add: s' Set_desc_def emptyCleared_def)
    ultimately show ?thesis by simp
  qed
qed

lemma invariants_unPinPage:
  assumes wf: "wellFormed s" and c: "consistent s" and e: "emptyCleared s"
    and run: "unPinPage fp pn isDirty s = (r, s')"
  shows "wellFormed s' \<and> consistent s' \<and> emptyCleared s'"
proof (cases "hashTable s (fp, pn)")
  case None
  with run have "s' = s" by (simp add: unPinPage_def ht_lookup_def)
  with assms show ?thesis by simp
next
  case (Some frame)
  note en = consistent_entryD [OF c Some]
  from wf have len: "length (bufDescTable s) = numBufs s" by (simp add: wellFormed_def)
  show ?thesis
  proof (cases "0 < pinCnt (bufDescTable s ! frame)")
    case False
    with Some run have "s' = s" by (simp add: unPinPage_def ht_lookup_def Let_def)
    with assms show ?thesis by simp
  next
    case True
    let ?d = "(bufDescTable s ! frame)\<lparr>pinCnt := pinCnt (bufDescTable s ! frame) - 1,
      dirty := dirty (bufDescTable s ! frame) \<or> isDirty\<rparr>"
    from True Some run have s': "s' = s\<lparr>bufDescTable := (bufDescTable s)[frame := ?d]\<rparr>"
      by (auto simp: unPinPage_def ht_lookup_def Let_def)
    have "wellFormed s'" using wf s' by (simp add: wellFormed_def)
    moreover have "consistent s'"
      unfolding s' using c en(1) len by (rule consistent_frame_update) simp_all
    moreover have "emptyCleared s'"
      unfolding s' using e by (rule emptyCleared_frame_update) (simp add: en(2))
    ultimately show ?thesis by simp
  qed
qed

lemma invariants_disposePage:
  assumes wf: "wellFormed s" and c: "consistent s" and e: "emptyCleared s"
    and run: "disposePage fp pn s = (r, s')"
  shows "wellFormed s' \<and> consistent s' \<and> emptyCleared s'"
proof (cases "hashTable s (fp, pn)")
  case None
  with run have "s' = s\<lparr>fileCalls := fileCalls s @ [File_deletePage fp pn]\<rparr>"
    by (auto simp: disposePage_def ht_lookup_def Let_def)
  with assms show ?thesis by (simp add: wellFormed_def consistent_def emptyCleared_def)
next
  case (Some frame)
  note en = consistent_entryD [OF c Some]
  from wf have len: "length (bufDescTable s) = numBufs s" by (simp add: wellFormed_def)
  let ?s1 = "s\<lparr>hashTable := (hashTable s)((file (bufDescTable s ! frame), pageNo (bufDescTable s ! frame)) := None),
        bufDescTable := (bufDescTable s)[frame := Clear (bufDescTable s ! frame)]\<rparr>"
  from Some run en have s': "s' = ?s1\<lparr>fileCalls := fileCalls s @ [File_deletePage fp pn]\<rparr>"
    by (auto simp: disposePage_def ht_lookup_def ht_remove_def Let_def)
  have "consistent ?s1"
    using c en(1) len en(2) by (rule consistent_frame_cleared) (simp add: Clear_def)
  then have "consistent s'" by (simp add: s' consistent_def)
  moreover have "wellFormed s'" using wf by (simp add: s' wellFormed_def)
  moreover have "emptyCleared s'"
    using emptyCleared_frame_update [OF e, of "Clear (bufDescTable s ! frame)" frame]
    by (simp add: s' Clear_def emptyCleared_def)
  ultimately show ?thesis by simp
qed

subsection \<open>One step of the loop of \<^verbatim>\<open>flushFile\<close>\<close>

declare flushFile_loop.simps [simp del]

lemma flushFile_loop_done:
  "\<not> fi < numBufs s \<Longrightarrow> flushFile_loop fp fi s = (Inr (), s)"
  by (subst flushFile_loop.simps) simp

lemma flushFile_loop_skip:
  "fi < numBufs s \<Longrightarrow> file (bufDescTable s ! fi) \<noteq> fp \<Longrightarrow>
   flushFile_loop fp fi s = flushFile_loop fp (fi + 1) s"
  by (subst flushFile_loop.simps) simp

lemma flushFile_loop_bad:
  "fi < numBufs s \<Longrightarrow> file (bufDescTable s ! fi) = fp \<Longrightarrow> \<not> valid (bufDescTable s ! fi) \<Longrightarrow>
   flushFile_loop fp fi s = (Inl BadBuffer, s)"
  by (subst flushFile_loop.simps) simp

lemma flushFile_loop_pinned:
  "fi < numBufs s \<Longrightarrow> file (bufDescTable s ! fi) = fp \<Longrightarrow> valid (bufDescTable s ! fi) \<Longrightarrow>
   0 < pinCnt (bufDescTable s ! fi) \<Longrightarrow>
   flushFile_loop fp fi s = (Inl PagePinned, s)"
  by (subst flushFile_loop.simps) simp

text \<open>The state after frame \<open>fi\<close> has been flushed: written back if dirty, removed, cleared.\<close>

lemma flushFile_loop_flush:
  assumes "fi < numBufs s" and "fi < length (bufDescTable s)"
    and "file (bufDescTable s ! fi) = fp" and "valid (bufDescTable s ! fi)"
    and "pinCnt (bufDescTable s ! fi) = 0"
    and "hashTable s (fp, pageNo (bufDescTable s ! fi)) = Some x"
  shows "flushFile_loop fp fi s =
     flushFile_loop fp (fi + 1)
       (s\<lparr>fileCalls := fileCalls s @
            (if dirty (bufDescTable s ! fi) then [File_writePage fp (bufPool s ! fi)] else []),
          hashTable := (hashTable s)((fp, pageNo (bufDescTable s ! fi)) := None),
          bufDescTable := (bufDescTable s)[fi := Clear (bufDescTable s ! fi)]\<rparr>)"
  using assms
  by (subst flushFile_loop.simps) (simp add: writeBack_def ht_remove_def Clear_def Let_def)

lemma invariants_flushed_frame:
  assumes wf: "wellFormed s" and c: "consistent s" and e: "emptyCleared s"
    and fi: "fi < numBufs s" and v: "valid (bufDescTable s ! fi)"
    and fp: "file (bufDescTable s ! fi) = fp"
    and s2: "s2 = s\<lparr>fileCalls := calls,
         hashTable := (hashTable s)((fp, pageNo (bufDescTable s ! fi)) := None),
         bufDescTable := (bufDescTable s)[fi := Clear (bufDescTable s ! fi)]\<rparr>"
  shows "wellFormed s2" and "consistent s2" and "emptyCleared s2"
proof -
  from wf have len: "length (bufDescTable s) = numBufs s" by (simp add: wellFormed_def)
  from wf show "wellFormed s2" by (simp add: s2 wellFormed_def)
  have "consistent
     (s\<lparr>hashTable := (hashTable s)((file (bufDescTable s ! fi), pageNo (bufDescTable s ! fi)) := None),
        bufDescTable := (bufDescTable s)[fi := Clear (bufDescTable s ! fi)]\<rparr>)"
    using c fi len v by (rule consistent_frame_cleared) (simp add: Clear_def)
  then show "consistent s2" by (simp add: s2 consistent_def fp)
  from emptyCleared_frame_update [OF e, of "Clear (bufDescTable s ! fi)" fi]
  show "emptyCleared s2" by (simp add: s2 Clear_def emptyCleared_def)
qed

lemma invariants_flushFile_loop:
  assumes "wellFormed s" and "consistent s" and "emptyCleared s"
    and "flushFile_loop fp fi s = (r, s')"
  shows "wellFormed s' \<and> consistent s' \<and> emptyCleared s'"
  using assms
proof (induction "numBufs s - fi" arbitrary: s fi rule: less_induct)
  case less
  note wf = less.prems(1) and c = less.prems(2) and e = less.prems(3) and run = less.prems(4)
  let ?d = "bufDescTable s ! fi"
  from wf have len: "length (bufDescTable s) = numBufs s" by (simp add: wellFormed_def)
  consider (finished) "\<not> fi < numBufs s"
    | (skip) "fi < numBufs s" "file ?d \<noteq> fp"
    | (bad) "fi < numBufs s" "file ?d = fp" "\<not> valid ?d"
    | (pinned) "fi < numBufs s" "file ?d = fp" "valid ?d" "0 < pinCnt ?d"
    | (flush) "fi < numBufs s" "file ?d = fp" "valid ?d" "pinCnt ?d = 0"
    by auto
  then show ?case
  proof cases
    case finished
    with run less.prems show ?thesis by (simp add: flushFile_loop_done)
  next
    case skip
    with run have "flushFile_loop fp (fi + 1) s = (r, s')" by (simp add: flushFile_loop_skip)
    with skip(1) wf c e show ?thesis by (intro less.hyps [of s "fi + 1"]) simp_all
  next
    case bad
    with run less.prems show ?thesis by (simp add: flushFile_loop_bad)
  next
    case pinned
    with run less.prems show ?thesis by (simp add: flushFile_loop_pinned)
  next
    case flush
    let ?s2 = "s\<lparr>fileCalls := fileCalls s @
            (if dirty ?d then [File_writePage fp (bufPool s ! fi)] else []),
          hashTable := (hashTable s)((fp, pageNo ?d) := None),
          bufDescTable := (bufDescTable s)[fi := Clear ?d]\<rparr>"
    from consistent_validD [OF c flush(1) flush(3)] flush(2)
    have "hashTable s (fp, pageNo ?d) = Some fi" by simp
    with flush len have "flushFile_loop fp fi s = flushFile_loop fp (fi + 1) ?s2"
      by (intro flushFile_loop_flush) simp_all
    with run have run2: "flushFile_loop fp (fi + 1) ?s2 = (r, s')" by simp
    note inv2 = invariants_flushed_frame [OF wf c e flush(1) flush(3) flush(2) refl]
    from flush(1) show ?thesis
      by (intro less.hyps [of ?s2 "fi + 1"] inv2 run2) simp
  qed
qed

lemma invariants_flushFile:
  assumes "wellFormed s" and "consistent s" and "emptyCleared s"
    and "flushFile fp s = (r, s')"
  shows "wellFormed s' \<and> consistent s' \<and> emptyCleared s'"
  using assms unfolding flushFile_def by (rule invariants_flushFile_loop)

lemma reachable_invariants:
  "reachable s \<Longrightarrow> wellFormed s \<and> consistent s \<and> emptyCleared s"
proof (induction rule: reachable.induct)
  case (init bufs)
  then show ?case by (simp add: invariants_new_BufMgr)
next
  case (read s fp pn rd r s')
  then show ?case using invariants_readPage by blast
next
  case (alloc s fp p ra s')
  then show ?case using invariants_allocPage by blast
next
  case (unpin s fp pn isDirty ru s')
  then show ?case using invariants_unPinPage by blast
next
  case (flush s fp ru s')
  then show ?case using invariants_flushFile by blast
next
  case (dispose s fp pn ru s')
  then show ?case using invariants_disposePage by blast
qed

subsection \<open>Claim C2: the hash table and the valid frames agree\<close>

text \<open>
  C2: in every state a client can reach (\<open>reachable\<close>: after construction and after
  every call of \<^verbatim>\<open>readPage\<close>, \<^verbatim>\<open>allocPage\<close>, \<^verbatim>\<open>unPinPage\<close>, \<^verbatim>\<open>flushFile\<close> and
  \<^verbatim>\<open>disposePage\<close>, those that return normally and those that throw; every call does
  one or the other, \<open>readPage_returns\<close> and \<open>allocPage_returns\<close>), a frame of the pool
  is valid if and only if the hash table has an entry that maps to it; every such entry
  has the frame's own file and page number as its key; and every entry maps into the pool.
\<close>

theorem index_agrees_with_valid_frames:
  assumes "reachable s" and "i < numBufs s"
  shows "(valid (bufDescTable s ! i) \<longleftrightarrow> (\<exists>fp pn. hashTable s (fp, pn) = Some i)) \<and>
         (\<forall>fp pn. hashTable s (fp, pn) = Some i \<longrightarrow>
            fp = file (bufDescTable s ! i) \<and> pn = pageNo (bufDescTable s ! i)) \<and>
         (\<forall>fp pn j. hashTable s (fp, pn) = Some j \<longrightarrow> j < numBufs s)"
proof -
  from assms(1) have c: "consistent s" by (simp add: reachable_invariants)
  show ?thesis
    using consistent_validD [OF c assms(2)] consistent_entryD [OF c]
    by blast
qed

theorem index_agrees_with_valid_frames_witness:
  "reachable (twoPages 1 False False 0 True) \<and>
   valid (bufDescTable (twoPages 1 False False 0 True) ! 1) \<and>
   (\<exists>fp pn. hashTable (twoPages 1 False False 0 True) (fp, pn) = Some 1)"
proof -
  have "(1::nat) < numBufs (twoPages 1 False False 0 True)"
    and "valid (bufDescTable (twoPages 1 False False 0 True) ! 1)"
    by (simp_all add: twoPages_def)
  with index_agrees_with_valid_frames [OF reachable_twoPages_revisit, of 1]
    reachable_twoPages_revisit
  show ?thesis by blast
qed

subsection \<open>Claim C7: reading the same page twice\<close>





subsection \<open>Claim C3: \<^verbatim>\<open>flushFile\<close> on a file with a pinned page\<close>

lemma flushedKeys_empty [simp]: "flushedKeys fp k k s = {}"
  by (auto simp: flushedKeys_def)

lemma flushedKeys_skip:
  "file (bufDescTable s ! fi) \<noteq> fp \<Longrightarrow> flushedKeys fp fi k s = flushedKeys fp (fi + 1) k s"
  unfolding flushedKeys_def
  by (rule Collect_cong) (metis Suc_eq_plus1 Suc_leD Suc_leI le_neq_implies_less)

lemma flushedKeys_flush:
  "fi < k \<Longrightarrow> file (bufDescTable s ! fi) = fp \<Longrightarrow>
   flushedKeys fp fi k s = insert (fp, pageNo (bufDescTable s ! fi)) (flushedKeys fp (fi + 1) k s)"
  unfolding flushedKeys_def
  by (auto simp: Suc_le_eq le_less)

lemma flushedBetween_empty: "flushedBetween fp k k s s"
  by (auto simp: flushedBetween_def)

lemma flushedBetween_skip:
  assumes "flushedBetween fp (fi + 1) k s s'" and "fi < k" and "file (bufDescTable s ! fi) \<noteq> fp"
  shows "flushedBetween fp fi k s s'"
proof -
  have range: "(fi \<le> i \<and> i < k \<and> file (bufDescTable s ! i) = fp) =
      (fi + 1 \<le> i \<and> i < k \<and> file (bufDescTable s ! i) = fp)" for i
    using assms(3) by (cases "i = fi") auto
  have "[fi..<k] = fi # [fi + 1..<k]"
    using assms(2) by (simp add: upt_conv_Cons)
  with assms(1,3) show ?thesis
    unfolding flushedBetween_def range by (simp add: flushedKeys_skip)
qed


lemma restrict_map_removed: "(m(x := None)) |` (- A) = m |` (- insert x A)"
  by (rule ext) (simp add: restrict_map_def)

lemma flushedKeys_cong:
  assumes "\<And>i. lo \<le> i \<Longrightarrow> i < hi \<Longrightarrow> bufDescTable s2 ! i = bufDescTable s ! i"
  shows "flushedKeys fp lo hi s2 = flushedKeys fp lo hi s"
  unfolding flushedKeys_def using assms by (intro Collect_cong) (metis (no_types, lifting))

lemma flushedBetween_flush:
  assumes rel: "flushedBetween fp (fi + 1) k s2 s'"
    and fi: "fi < k" "fi < numBufs s" and len: "length (bufDescTable s) = numBufs s"
    and fp: "file (bufDescTable s ! fi) = fp"
    and same: "numBufs s2 = numBufs s" "bufPool s2 = bufPool s" "clockHand s2 = clockHand s"
    and calls2: "fileCalls s2 = fileCalls s @
            (if dirty (bufDescTable s ! fi) then [File_writePage fp (bufPool s ! fi)] else [])"
    and hash2: "hashTable s2 = (hashTable s)((fp, pageNo (bufDescTable s ! fi)) := None)"
    and table2: "bufDescTable s2 = (bufDescTable s)[fi := Clear (bufDescTable s ! fi)]"
  shows "flushedBetween fp fi k s s'"
proof -
  have t2: "bufDescTable s2 ! i = (if i = fi then Clear (bufDescTable s ! fi) else bufDescTable s ! i)"
    if "i < numBufs s" for i
    using that fi(2) len by (simp add: table2 nth_list_update)
  have t2_above: "bufDescTable s2 ! i = bufDescTable s ! i" if "fi + 1 \<le> i" for i
    using that by (simp add: table2)
  from rel have rel_basics: "numBufs s' = numBufs s2" "bufPool s' = bufPool s2"
    "clockHand s' = clockHand s2" "length (bufDescTable s') = length (bufDescTable s2)"
    and rel_table: "\<And>i. i < numBufs s2 \<Longrightarrow> bufDescTable s' ! i =
        (if fi + 1 \<le> i \<and> i < k \<and> file (bufDescTable s2 ! i) = fp
         then Clear (bufDescTable s2 ! i) else bufDescTable s2 ! i)"
    and rel_hash: "hashTable s' = hashTable s2 |` (- flushedKeys fp (fi + 1) k s2)"
    and rel_calls: "fileCalls s' =
       fileCalls s2 @
       map (\<lambda>i. File_writePage fp (bufPool s2 ! i))
         (filter (\<lambda>i. file (bufDescTable s2 ! i) = fp \<and> dirty (bufDescTable s2 ! i)) [fi + 1..<k])"
    unfolding flushedBetween_def by blast+
  from rel_basics same table2
  have basics: "numBufs s' = numBufs s" "bufPool s' = bufPool s"
    "clockHand s' = clockHand s" "length (bufDescTable s') = length (bufDescTable s)"
    by simp_all
  have table: "bufDescTable s' ! i =
      (if fi \<le> i \<and> i < k \<and> file (bufDescTable s ! i) = fp
       then Clear (bufDescTable s ! i) else bufDescTable s ! i)" if i: "i < numBufs s" for i
  proof (cases "i = fi")
    case True
    with rel_table [of fi] same(1) i t2 [OF i] fi(1) fp show ?thesis by simp
  next
    case False
    then have "(fi \<le> i) = (fi + 1 \<le> i)" by auto
    with False rel_table [of i] same(1) i t2 [OF i] show ?thesis by simp
  qed
  have keys: "flushedKeys fp (fi + 1) k s2 = flushedKeys fp (fi + 1) k s"
    by (rule flushedKeys_cong) (simp add: t2_above)
  have "hashTable s' =
      (hashTable s)((fp, pageNo (bufDescTable s ! fi)) := None) |` (- flushedKeys fp (fi + 1) k s)"
    by (simp only: rel_hash hash2 keys)
  also have "\<dots> = hashTable s |`
      (- insert (fp, pageNo (bufDescTable s ! fi)) (flushedKeys fp (fi + 1) k s))"
    by (rule restrict_map_removed)
  also have "insert (fp, pageNo (bufDescTable s ! fi)) (flushedKeys fp (fi + 1) k s) =
      flushedKeys fp fi k s"
    by (rule flushedKeys_flush [OF fi(1) fp, symmetric])
  finally have hash: "hashTable s' = hashTable s |` (- flushedKeys fp fi k s)" .
  have "filter (\<lambda>i. file (bufDescTable s2 ! i) = fp \<and> dirty (bufDescTable s2 ! i)) [fi + 1..<k] =
      filter (\<lambda>i. file (bufDescTable s ! i) = fp \<and> dirty (bufDescTable s ! i)) [fi + 1..<k]"
    by (rule filter_cong) (simp_all add: t2_above)
  moreover have "[fi..<k] = fi # [fi + 1..<k]"
    using fi(1) by (simp add: upt_conv_Cons)
  ultimately have calls: "fileCalls s' =
      fileCalls s @
      map (\<lambda>i. File_writePage fp (bufPool s ! i))
        (filter (\<lambda>i. file (bufDescTable s ! i) = fp \<and> dirty (bufDescTable s ! i)) [fi..<k])"
    using rel_calls fp by (simp add: calls2 same)
  from basics table hash calls show ?thesis
    unfolding flushedBetween_def by blast
qed

lemma flushFile_loop_stops_at_pinned:
  assumes "wellFormed s" and "consistent s" and "emptyCleared s" and "fp \<noteq> NULL"
    and "fi \<le> k" and "k < numBufs s"
    and "file (bufDescTable s ! k) = fp" and "0 < pinCnt (bufDescTable s ! k)"
    and "\<forall>i. fi \<le> i \<and> i < k \<and> file (bufDescTable s ! i) = fp \<longrightarrow> pinCnt (bufDescTable s ! i) = 0"
  shows "\<exists>s'. flushFile_loop fp fi s = (Inl PagePinned, s') \<and> flushedBetween fp fi k s s'"
  using assms
proof (induction "k - fi" arbitrary: s fi rule: less_induct)
  case less
  note wf = less.prems(1) and c = less.prems(2) and e = less.prems(3) and nn = less.prems(4)
    and k = less.prems(6) and fk = less.prems(7) and pk = less.prems(8) and before = less.prems(9)
  let ?d = "bufDescTable s ! fi"
  from wf have len: "length (bufDescTable s) = numBufs s" by (simp add: wellFormed_def)
  have owned_valid: "valid (bufDescTable s ! i)" if "i < numBufs s" "file (bufDescTable s ! i) = fp" for i
    using that e nn len by (auto simp: emptyCleared_nth)
  show ?case
  proof (cases "fi = k")
    case True
    with k fk pk owned_valid [OF k fk] have "flushFile_loop fp fi s = (Inl PagePinned, s)"
      by (intro flushFile_loop_pinned) simp_all
    with True show ?thesis by (simp add: flushedBetween_empty)
  next
    case False
    with less.prems(5) k have fi: "fi < k" "fi < numBufs s" by simp_all
    show ?thesis
    proof (cases "file ?d = fp")
      case False
      with fi have eq: "flushFile_loop fp fi s = flushFile_loop fp (fi + 1) s"
        by (intro flushFile_loop_skip)
      have "\<exists>s'. flushFile_loop fp (fi + 1) s = (Inl PagePinned, s') \<and>
          flushedBetween fp (fi + 1) k s s'"
        using fi wf c e nn k fk pk before by (intro less.hyps) auto
      then obtain s' where "flushFile_loop fp (fi + 1) s = (Inl PagePinned, s')"
        and "flushedBetween fp (fi + 1) k s s'" by blast
      with eq fi(1) False show ?thesis
        by (auto intro: flushedBetween_skip)
    next
      case True
      let ?s2 = "s\<lparr>fileCalls := fileCalls s @
            (if dirty ?d then [File_writePage fp (bufPool s ! fi)] else []),
          hashTable := (hashTable s)((fp, pageNo ?d) := None),
          bufDescTable := (bufDescTable s)[fi := Clear ?d]\<rparr>"
      note v = owned_valid [OF fi(2) True]
      from before fi(1) True have unpinned: "pinCnt ?d = 0" by simp
      from consistent_validD [OF c fi(2) v] True
      have "hashTable s (fp, pageNo ?d) = Some fi" by simp
      with fi(2) len True v unpinned
      have eq: "flushFile_loop fp fi s = flushFile_loop fp (fi + 1) ?s2"
        by (intro flushFile_loop_flush) simp_all
      note inv2 = invariants_flushed_frame [OF wf c e fi(2) v True refl]
      have above: "bufDescTable ?s2 ! i = bufDescTable s ! i" if "fi + 1 \<le> i" for i
        using that by simp
      have "\<exists>s'. flushFile_loop fp (fi + 1) ?s2 = (Inl PagePinned, s') \<and>
          flushedBetween fp (fi + 1) k ?s2 s'"
      proof (rule less.hyps)
        show "k - (fi + 1) < k - fi" using fi(1) by simp
        show "wellFormed ?s2" "consistent ?s2" "emptyCleared ?s2" by (rule inv2)+
        show "fp \<noteq> NULL" by (rule nn)
        show "fi + 1 \<le> k" using fi(1) by simp
        show "k < numBufs ?s2" using k by simp
        show "file (bufDescTable ?s2 ! k) = fp" using fk fi(1) by (simp add: above)
        show "0 < pinCnt (bufDescTable ?s2 ! k)" using pk fi(1) by (simp add: above)
        show "\<forall>i. fi + 1 \<le> i \<and> i < k \<and> file (bufDescTable ?s2 ! i) = fp \<longrightarrow>
            pinCnt (bufDescTable ?s2 ! i) = 0"
          using before by (auto simp: above)
      qed
      then obtain s' where run: "flushFile_loop fp (fi + 1) ?s2 = (Inl PagePinned, s')"
        and rel: "flushedBetween fp (fi + 1) k ?s2 s'" by blast
      from rel fi len True have "flushedBetween fp fi k s s'"
        by (rule flushedBetween_flush) simp_all
      with eq run show ?thesis by simp
    qed
  qed
qed

lemma reachable_twoPages_first_unpinned: "reachable (twoPages 0 True True 1 True)"
  using reachable_twoPages_all_pinned twoPages_unpin0 by (rule reachable.unpin)

text \<open>
  C3 (as stated): when a frame of the file is pinned, \<^verbatim>\<open>flushFile\<close> raises \<open>PagePinned\<close>
  and leaves all frames of the file unchanged. Counterexample: frames 0 and 1 hold pages
  10 and 11 of file 1, frame 0 is dirty and unpinned, frame 1 is pinned (a state the
  client reaches, \<open>reachable_twoPages_first_unpinned\<close>). The loop flushes frame 0 before
  it meets frame 1: page 10 is written back, its entry is removed and its descriptor
  cleared, and only then \<open>PagePinned\<close> is raised.
\<close>

theorem flushFile_clears_before_pinned:
  "file (bufDescTable (twoPages 0 True True 1 True) ! 0) = 1 \<and>
   valid (bufDescTable (twoPages 0 True True 1 True) ! 0) \<and>
   hashTable (twoPages 0 True True 1 True) (1, 10) = Some 0 \<and>
   file (bufDescTable (twoPages 0 True True 1 True) ! 1) = 1 \<and>
   0 < pinCnt (bufDescTable (twoPages 0 True True 1 True) ! 1) \<and>
   fst (flushFile 1 (twoPages 0 True True 1 True)) = Inl PagePinned \<and>
   bufDescTable (snd (flushFile 1 (twoPages 0 True True 1 True))) ! 0 = empty_desc 0 \<and>
   hashTable (snd (flushFile 1 (twoPages 0 True True 1 True))) (1, 10) = None \<and>
   fileCalls (snd (flushFile 1 (twoPages 0 True True 1 True))) =
     [File_readPage 1 10, File_readPage 1 11, File_writePage 1 (pageOf 10)]"
  by (simp add: twoPages_def flushFile_def flushFile_loop_flush flushFile_loop_pinned
      Clear_def empty_desc_def NULL_def)

text \<open>
  C3 (amended): let the state be well formed and consistent with its empty frames
  cleared, and let some frame of the file \<open>fp\<close> be pinned. Then \<^verbatim>\<open>flushFile\<close> raises
  \<open>PagePinned\<close> at the first pinned frame \<open>k\<close> of the file. That frame and every frame
  after it are unchanged and keep their entries in the hash table. The frames of the file
  before \<open>k\<close>, which are unpinned, have been flushed (\<open>flushedBetween\<close>): written back if
  dirty, removed from the hash table and cleared.
\<close>

theorem flushFile_stops_at_first_pinned:
  assumes wf: "wellFormed s" and c: "consistent s" and e: "emptyCleared s" and nn: "fp \<noteq> NULL"
    and j: "j < numBufs s" "file (bufDescTable s ! j) = fp" "0 < pinCnt (bufDescTable s ! j)"
  shows "\<exists>k s'. k \<le> j \<and> file (bufDescTable s ! k) = fp \<and> 0 < pinCnt (bufDescTable s ! k) \<and>
      (\<forall>i<k. file (bufDescTable s ! i) = fp \<longrightarrow> pinCnt (bufDescTable s ! i) = 0) \<and>
      flushFile fp s = (Inl PagePinned, s') \<and>
      flushedBetween fp 0 k s s' \<and>
      (\<forall>i<numBufs s. k \<le> i \<longrightarrow>
         bufDescTable s' ! i = bufDescTable s ! i \<and>
         (valid (bufDescTable s ! i) \<longrightarrow>
            hashTable s' (file (bufDescTable s ! i), pageNo (bufDescTable s ! i)) = Some i))"
proof -
  let ?P = "\<lambda>i. file (bufDescTable s ! i) = fp \<and> 0 < pinCnt (bufDescTable s ! i)"
  define k where "k = (LEAST i. ?P i)"
  from j have Pj: "?P j" by simp
  then have Pk: "?P k" unfolding k_def by (rule LeastI)
  from Pj have kj: "k \<le> j" unfolding k_def by (rule Least_le)
  have first: "\<not> ?P i" if "i < k" for i
    using that unfolding k_def by (rule not_less_Least)
  from kj j(1) have k: "k < numBufs s" by simp
  have "\<exists>s'. flushFile_loop fp 0 s = (Inl PagePinned, s') \<and> flushedBetween fp 0 k s s'"
    using wf c e nn _ k Pk [THEN conjunct1] Pk [THEN conjunct2]
    by (rule flushFile_loop_stops_at_pinned) (use first in auto)
  then obtain s' where run: "flushFile fp s = (Inl PagePinned, s')"
    and rel: "flushedBetween fp 0 k s s'"
    by (auto simp: flushFile_def)
  from invariants_flushFile [OF wf c e run] have c': "consistent s'" by simp
  from rel have n': "numBufs s' = numBufs s"
    and t': "\<And>i. i < numBufs s \<Longrightarrow> k \<le> i \<Longrightarrow> bufDescTable s' ! i = bufDescTable s ! i"
    by (simp_all add: flushedBetween_def)
  have "bufDescTable s' ! i = bufDescTable s ! i \<and>
      (valid (bufDescTable s ! i) \<longrightarrow>
         hashTable s' (file (bufDescTable s ! i), pageNo (bufDescTable s ! i)) = Some i)"
    if "i < numBufs s" "k \<le> i" for i
    using consistent_validD [OF c', of i] t' [OF that] n' that(1) by simp
  moreover have "\<forall>i<k. file (bufDescTable s ! i) = fp \<longrightarrow> pinCnt (bufDescTable s ! i) = 0"
    using first by auto
  ultimately show ?thesis
    using Pk kj run rel by blast
qed

theorem flushFile_stops_at_first_pinned_witness:
  "0 < pinCnt (bufDescTable (twoPages 0 True True 1 True) ! 1) \<and>
   (\<exists>s'. flushFile 1 (twoPages 0 True True 1 True) = (Inl PagePinned, s') \<and>
      bufDescTable s' ! 1 = bufDescTable (twoPages 0 True True 1 True) ! 1 \<and>
      hashTable s' (1, 11) = Some 1)"
proof -
  note inv = reachable_invariants [OF reachable_twoPages_first_unpinned]
  have frame1: "(1::nat) < numBufs (twoPages 0 True True 1 True)"
    "file (bufDescTable (twoPages 0 True True 1 True) ! 1) = 1"
    "0 < pinCnt (bufDescTable (twoPages 0 True True 1 True) ! 1)"
    "valid (bufDescTable (twoPages 0 True True 1 True) ! 1)"
    "pageNo (bufDescTable (twoPages 0 True True 1 True) ! 1) = 11"
    "pinCnt (bufDescTable (twoPages 0 True True 1 True) ! 0) = 0"
    "file (bufDescTable (twoPages 0 True True 1 True) ! 0) = 1"
    by (simp_all add: twoPages_def)
  have "(1::nat) \<noteq> NULL" by (simp add: NULL_def)
  from flushFile_stops_at_first_pinned
    [OF inv [THEN conjunct1] inv [THEN conjunct2, THEN conjunct1]
      inv [THEN conjunct2, THEN conjunct2] this frame1(1-3)]
  obtain k s' where "k \<le> 1" and "0 < pinCnt (bufDescTable (twoPages 0 True True 1 True) ! k)"
    and run: "flushFile 1 (twoPages 0 True True 1 True) = (Inl PagePinned, s')"
    and tail: "\<forall>i<numBufs (twoPages 0 True True 1 True). k \<le> i \<longrightarrow>
         bufDescTable s' ! i = bufDescTable (twoPages 0 True True 1 True) ! i \<and>
         (valid (bufDescTable (twoPages 0 True True 1 True) ! i) \<longrightarrow>
            hashTable s' (file (bufDescTable (twoPages 0 True True 1 True) ! i),
              pageNo (bufDescTable (twoPages 0 True True 1 True) ! i)) = Some i)"
    by blast
  with frame1 have "k = 1" by (cases "k = 0") auto
  with tail frame1 have "bufDescTable s' ! 1 = bufDescTable (twoPages 0 True True 1 True) ! 1"
    and "hashTable s' (1, 11) = Some 1"
    by auto
  with frame1(3) run show ?thesis by blast
qed

end
